theory Spec2Isabelle
  imports
    Main
    "HOL-Library.Sublist"
    "HOL-Library.AList"
    "HOL-Library.Multiset"
    "HOL-Library.Product_Lexorder"
    "HOL-Library.List_Lexorder"
begin

section \<open>Text and the Python built-ins the script relies on\<close>

text \<open>
  A Python \<^verbatim>\<open>str\<close> is a sequence of Unicode code points; it is modelled as a list of
  natural numbers.  ASCII literals of the source are written through \<open>asc\<close>; the Chinese
  literals are given by their code points.
\<close>

type_synonym ustr = "nat list"

definition asc :: "string \<Rightarrow> ustr" where
  "asc s = map of_char s"

datatype py_error = KeyError | ValueError

subsection \<open>Character classes\<close>

text \<open>
  \<^verbatim>\<open>str.isspace\<close>, which is also the class \<^verbatim>\<open>\s\<close> of \<^verbatim>\<open>re\<close> on text patterns and the
  set \<^verbatim>\<open>str.strip()\<close> removes: the Unicode white space of CPython.
\<close>

definition isspace :: "nat \<Rightarrow> bool" where
  "isspace c \<longleftrightarrow>
     (9 \<le> c \<and> c \<le> 13) \<or> (28 \<le> c \<and> c \<le> 32) \<or> c = 0x85 \<or> c = 0xA0 \<or> c = 0x1680 \<or>
     (0x2000 \<le> c \<and> c \<le> 0x200A) \<or> c = 0x2028 \<or> c = 0x2029 \<or> c = 0x202F \<or>
     c = 0x205F \<or> c = 0x3000"

text \<open>
  The decimal digits of Unicode (category Nd, version 14 as shipped with CPython 3.11):
  they come in runs of ten, from the digit zero listed here to the digit nine.  This is
  the class \<^verbatim>\<open>\d\<close> of \<^verbatim>\<open>re\<close> on text patterns, and the digits \<^verbatim>\<open>int\<close> accepts.
\<close>

definition decimal_zeros :: "nat list" where
  "decimal_zeros =
    [0x30, 0x660, 0x6f0, 0x7c0, 0x966, 0x9e6, 0xa66, 0xae6, 0xb66, 0xbe6, 0xc66,
     0xce6, 0xd66, 0xde6, 0xe50, 0xed0, 0xf20, 0x1040, 0x1090, 0x17e0, 0x1810,
     0x1946, 0x19d0, 0x1a80, 0x1a90, 0x1b50, 0x1bb0, 0x1c40, 0x1c50, 0xa620, 0xa8d0,
     0xa900, 0xa9d0, 0xa9f0, 0xaa50, 0xabf0, 0xff10, 0x104a0, 0x10d30, 0x11066,
     0x110f0, 0x11136, 0x111d0, 0x112f0, 0x11450, 0x114d0, 0x11650, 0x116c0, 0x11730,
     0x118e0, 0x11950, 0x11c50, 0x11d50, 0x11da0, 0x16a60, 0x16ac0, 0x16b50, 0x1d7ce,
     0x1d7d8, 0x1d7e2, 0x1d7ec, 0x1d7f6, 0x1e140, 0x1e2f0, 0x1e950, 0x1fbf0]"

definition decimal :: "nat \<Rightarrow> nat option" where
  "decimal c = (case filter (\<lambda>z. z \<le> c \<and> c < z + 10) decimal_zeros of
                  [] \<Rightarrow> None | z # _ \<Rightarrow> Some (c - z))"

definition isdecimal :: "nat \<Rightarrow> bool" where
  "isdecimal c \<longleftrightarrow> decimal c \<noteq> None"

definition digit_value :: "nat \<Rightarrow> nat" where
  "digit_value c = (case decimal c of Some d \<Rightarrow> d | None \<Rightarrow> 0)"

subsection \<open>\<^verbatim>\<open>int(text)\<close>\<close>

text \<open>
  \<^verbatim>\<open>int\<close> on a string, base ten: white space around, an optional sign, then decimal
  digits with single underscores between them, at most 4300 digits (the default
  \<^verbatim>\<open>sys.int_max_str_digits\<close>); anything else raises \<^verbatim>\<open>ValueError\<close>, here \<open>None\<close>.
  The white space \<^verbatim>\<open>int\<close> skips is that of C below code point 127 and that of Unicode
  from there on.
\<close>

definition int_space :: "nat \<Rightarrow> bool" where
  "int_space c \<longleftrightarrow> (if c < 127 then c = 32 \<or> (9 \<le> c \<and> c \<le> 13) else isspace c)"

definition int_body_char :: "nat \<Rightarrow> bool" where
  "int_body_char c \<longleftrightarrow> isdecimal c \<or> c = 95"

fun double_underscore :: "ustr \<Rightarrow> bool" where
  "double_underscore (a # b # cs) = ((a = 95 \<and> b = 95) \<or> double_underscore (b # cs))"
| "double_underscore _ = False"

definition digits_value :: "ustr \<Rightarrow> nat" where
  "digits_value ds = fold (\<lambda>c v. 10 * v + digit_value c) ds 0"

definition py_int :: "ustr \<Rightarrow> int option" where
  "py_int s =
     (let t = dropWhile int_space s;
          neg = (t \<noteq> [] \<and> hd t = 45);
          u = (if t \<noteq> [] \<and> (hd t = 43 \<or> hd t = 45) then tl t else t);
          body = takeWhile int_body_char u;
          rest = dropWhile int_body_char u;
          ds = filter (\<lambda>c. c \<noteq> 95) body
      in if body = [] \<or> hd body = 95 \<or> last body = 95 \<or> double_underscore body
            \<or> length ds > 4300 \<or> dropWhile int_space rest \<noteq> []
         then None
         else Some (if neg then - int (digits_value ds) else int (digits_value ds)))"

subsection \<open>\<^verbatim>\<open>str.split(sep)\<close> and \<^verbatim>\<open>sep.join(parts)\<close>\<close>

text \<open>
  \<^verbatim>\<open>text.split(sep)\<close> cuts at the occurrences of \<open>sep\<close> found from the left, without
  overlap.  \<open>split_from skip cur\<close> walks the text: \<open>skip\<close> counts the characters of a
  separator just found that are still to be passed over, \<open>cur\<close> holds the piece being
  read, reversed.  Python raises \<^verbatim>\<open>ValueError\<close> on an empty separator; the script only
  ever splits at non-empty constants, and on an empty separator the model does not cut.
\<close>

fun split_from :: "ustr \<Rightarrow> nat \<Rightarrow> ustr \<Rightarrow> ustr \<Rightarrow> ustr list" where
  "split_from sep skip cur [] = [rev cur]"
| "split_from sep (Suc k) cur (c # cs) = split_from sep k cur cs"
| "split_from sep 0 cur (c # cs) =
     (if sep \<noteq> [] \<and> prefix sep (c # cs)
      then rev cur # split_from sep (length sep - 1) [] cs
      else split_from sep 0 (c # cur) cs)"

definition py_split :: "ustr \<Rightarrow> ustr \<Rightarrow> ustr list" where
  "py_split sep s = split_from sep 0 [] s"

fun py_join :: "ustr \<Rightarrow> ustr list \<Rightarrow> ustr" where
  "py_join sep [] = []"
| "py_join sep [p] = p"
| "py_join sep (p # q # ps) = p @ sep @ py_join sep (q # ps)"


subsection \<open>Facts about the character classes\<close>

lemma isdecimal_iff: "isdecimal c \<longleftrightarrow> (\<exists>z \<in> set decimal_zeros. z \<le> c \<and> c < z + 10)"
proof (cases "filter (\<lambda>z. z \<le> c \<and> c < z + 10) decimal_zeros")
  case Nil
  then show ?thesis
    by (simp add: isdecimal_def decimal_def filter_empty_conv)
next
  case (Cons z zs)
  then have "z \<in> set (filter (\<lambda>z. z \<le> c \<and> c < z + 10) decimal_zeros)"
    by simp
  then have "\<exists>z \<in> set decimal_zeros. z \<le> c \<and> c < z + 10"
    by auto
  then show ?thesis
    using Cons by (simp add: isdecimal_def decimal_def)
qed

lemma decimal_le_9: "decimal c = Some d \<Longrightarrow> d \<le> 9"
proof -
  assume a: "decimal c = Some d"
  then obtain z zs where f: "filter (\<lambda>z. z \<le> c \<and> c < z + 10) decimal_zeros = z # zs"
    and d: "d = c - z"
    by (auto simp: decimal_def split: list.splits)
  have "z \<in> set (filter (\<lambda>z. z \<le> c \<and> c < z + 10) decimal_zeros)"
    unfolding f by simp
  then show ?thesis using d by auto
qed

lemma decimal_below_1632: "c < 1632 \<Longrightarrow> decimal c = (if 48 \<le> c \<and> c \<le> 57 then Some (c - 48) else None)"
  by (simp add: decimal_def decimal_zeros_def)

lemma isdecimal_below_1632: "c < 1632 \<Longrightarrow> isdecimal c \<longleftrightarrow> 48 \<le> c \<and> c \<le> 57"
  by (simp add: isdecimal_def decimal_below_1632)

lemma isdecimal_not_isspace: "isdecimal c \<Longrightarrow> \<not> isspace c"
  unfolding isdecimal_iff decimal_zeros_def isspace_def by auto

lemma isdecimal_not_int_space: "isdecimal c \<Longrightarrow> \<not> int_space c"
proof (cases "c < 127")
  case True
  assume "isdecimal c"
  with True show ?thesis by (simp add: isdecimal_below_1632 int_space_def)
next
  case False
  assume "isdecimal c"
  with False show ?thesis by (simp add: int_space_def isdecimal_not_isspace)
qed

section \<open>Scoring engine: \<open>calculate_prize\<close>\<close>

text \<open>The only prize tier of \<^verbatim>\<open>PRIZE_VALUES\<close>: direct selection, worth 100000.\<close>

datatype prize_type = Direct

definition PRIZE_VALUES :: "prize_type \<Rightarrow> int" where
  "PRIZE_VALUES t = (case t of Direct \<Rightarrow> 100000)"

record win_detail =
  index :: nat
  numbers :: "int list"
  prize_type :: prize_type
  prize_amount :: int

text \<open>A Python dictionary is an association list in insertion order, without duplicate
  keys: \<open>map_of\<close> reads a key and \<open>AList.update\<close> writes one.\<close>

type_synonym prize_stats = "(prize_type \<times> int) list"

type_synonym score = "int \<times> prize_stats \<times> win_detail list"

text \<open>
  The body of the \<^verbatim>\<open>for i, recommendation in enumerate(recommendations)\<close> loop, with
  the three accumulators passed along.  \<^verbatim>\<open>prize_stats["..."] += 1\<close> reads the key
  first, which raises \<^verbatim>\<open>KeyError\<close> on a dictionary without it.
\<close>

fun prize_loop :: "int list \<Rightarrow> nat \<Rightarrow> int list list \<Rightarrow> score \<Rightarrow> py_error + score" where
  "prize_loop prize_numbers i [] st = Inr st"
| "prize_loop prize_numbers i (recommendation # rest) (total_prize, stats, winning_details) =
     (if length recommendation \<noteq> 5 then
        prize_loop prize_numbers (Suc i) rest (total_prize, stats, winning_details)
      else if recommendation = prize_numbers then
        (case map_of stats Direct of
           None \<Rightarrow> Inl KeyError
         | Some n \<Rightarrow>
             prize_loop prize_numbers (Suc i) rest
               (total_prize + PRIZE_VALUES Direct,
                AList.update Direct (n + 1) stats,
                winning_details @
                  [\<lparr>index = i + 1, numbers = recommendation, prize_type = Direct,
                    prize_amount = PRIZE_VALUES Direct\<rparr>]))
      else prize_loop prize_numbers (Suc i) rest (total_prize, stats, winning_details))"

definition calculate_prize :: "int list list \<Rightarrow> int list \<Rightarrow> py_error + score" where
  "calculate_prize recommendations prize_numbers =
     (if recommendations = [] \<or> prize_numbers = [] \<or> length prize_numbers \<noteq> 5
      then Inr (0, [], [])
      else prize_loop prize_numbers 0 recommendations (0, [(Direct, 0)], []))"

text \<open>The win record the loop writes for bet number \<open>i\<close> (counted from 0).\<close>

definition win_at :: "nat \<times> int list \<Rightarrow> win_detail" where
  "win_at p = \<lparr>index = fst p + 1, numbers = snd p, prize_type = Direct,
               prize_amount = PRIZE_VALUES Direct\<rparr>"

definition winners :: "int list \<Rightarrow> nat \<Rightarrow> int list list \<Rightarrow> (nat \<times> int list) list" where
  "winners prize_numbers i recs = filter (\<lambda>p. snd p = prize_numbers) (enumerate i recs)"

section \<open>Properties of the scoring engine\<close>

lemma prize_loop_result:
  assumes "length prize_numbers = 5"
  shows "prize_loop prize_numbers i recs (tot, [(Direct, n)], details) =
           Inr (tot + 100000 * int (length (winners prize_numbers i recs)),
                [(Direct, n + int (length (winners prize_numbers i recs)))],
                details @ map win_at (winners prize_numbers i recs))"
proof (induction recs arbitrary: i tot details n)
  case Nil
  show ?case by (simp add: winners_def)
next
  case (Cons r recs)
  show ?case
  proof (cases "r = prize_numbers")
    case True
    have step: "prize_loop prize_numbers i (prize_numbers # recs) (tot, [(Direct, n)], details) =
        prize_loop prize_numbers (Suc i) recs
          (tot + 100000, [(Direct, n + 1)], details @ [win_at (i, prize_numbers)])"
      using assms by (simp add: PRIZE_VALUES_def win_at_def)
    have w: "winners prize_numbers i (prize_numbers # recs) =
        (i, prize_numbers) # winners prize_numbers (Suc i) recs"
      by (simp add: winners_def)
    show ?thesis
      unfolding True step w Cons.IH by simp
  next
    case False
    have step: "prize_loop prize_numbers i (r # recs) (tot, [(Direct, n)], details) =
        prize_loop prize_numbers (Suc i) recs (tot, [(Direct, n)], details)"
      using False by simp
    have w: "winners prize_numbers i (r # recs) = winners prize_numbers (Suc i) recs"
      using False by (simp add: winners_def)
    show ?thesis
      unfolding step w Cons.IH by simp
  qed
qed

lemma calculate_prize_result:
  assumes "length prize_numbers = 5" and "recs \<noteq> []"
  shows "calculate_prize recs prize_numbers =
           Inr (100000 * int (length (winners prize_numbers 0 recs)),
                [(Direct, int (length (winners prize_numbers 0 recs)))],
                map win_at (winners prize_numbers 0 recs))"
proof -
  have ne: "prize_numbers \<noteq> []" using assms(1) by auto
  show ?thesis
    using assms ne by (simp add: calculate_prize_def prize_loop_result)
qed

lemma calculate_prize_details:
  assumes "length prize_numbers = 5"
  shows "\<exists>tot stats. calculate_prize recs prize_numbers =
           Inr (tot, stats, map win_at (winners prize_numbers 0 recs))"
proof (cases "recs = []")
  case True
  then show ?thesis by (simp add: calculate_prize_def winners_def)
next
  case False
  then show ?thesis using calculate_prize_result [OF assms False] by blast
qed

lemma winners_index_increasing:
  "sorted_wrt (<) (map index (map win_at (winners prize_numbers i recs)))"
proof -
  have "sorted_wrt (<) (map fst (enumerate i recs))"
    by (simp add: map_fst_enumerate)
  then have "sorted_wrt (\<lambda>p q. fst p < fst q) (enumerate i recs)"
    by (simp only: sorted_wrt_map)
  then have "sorted_wrt (\<lambda>p q. fst p < fst q) (winners prize_numbers i recs)"
    unfolding winners_def by (rule sorted_wrt_filter)
  then show ?thesis
    by (simp add: sorted_wrt_map win_at_def)
qed

text \<open>
  C1. Against a draw of exactly five numbers, the win records are exactly the bets equal
  to the draw, in bet order, each at the fixed amount of 100000: the win list is the
  list of bets, numbered from 1, filtered by equality with the draw.  In particular a
  single bet equal to the draw gives one record worth 100000, and a single bet that
  differs from the draw gives none.
\<close>

theorem calculate_prize_exact_match:
  assumes "length prize_numbers = 5"
  shows "(\<exists>tot stats. calculate_prize recs prize_numbers =
            Inr (tot, stats,
                 map win_at (filter (\<lambda>p. snd p = prize_numbers) (enumerate 0 recs))))
       \<and> calculate_prize [prize_numbers] prize_numbers =
            Inr (100000, [(Direct, 1)],
                 [\<lparr>index = 1, numbers = prize_numbers, prize_type = Direct,
                   prize_amount = 100000\<rparr>])
       \<and> (r \<noteq> prize_numbers \<longrightarrow>
            (\<exists>tot stats. calculate_prize [r] prize_numbers = Inr (tot, stats, [])))"
proof (intro conjI impI)
  show "\<exists>tot stats. calculate_prize recs prize_numbers =
          Inr (tot, stats,
               map win_at (filter (\<lambda>p. snd p = prize_numbers) (enumerate 0 recs)))"
    using calculate_prize_details [OF assms, of recs] by (simp add: winners_def)
next
  show "calculate_prize [prize_numbers] prize_numbers =
          Inr (100000, [(Direct, 1)],
               [\<lparr>index = 1, numbers = prize_numbers, prize_type = Direct,
                 prize_amount = 100000\<rparr>])"
    using calculate_prize_result [OF assms, of "[prize_numbers]"]
    by (simp add: winners_def win_at_def PRIZE_VALUES_def)
next
  assume "r \<noteq> prize_numbers"
  then show "\<exists>tot stats. calculate_prize [r] prize_numbers = Inr (tot, stats, [])"
    using calculate_prize_result [OF assms, of "[r]"] by (simp add: winners_def)
qed

theorem calculate_prize_exact_match_witness:
  "length [1, 2, 3, 4, 5 :: int] = 5
   \<and> (\<exists>tot stats. calculate_prize [[1, 2, 3, 4, 6], [1, 2, 3, 4, 5]] [1, 2, 3, 4, 5] =
         Inr (tot, stats,
              [\<lparr>index = 2, numbers = [1, 2, 3, 4, 5], prize_type = Direct,
                prize_amount = 100000\<rparr>]))
   \<and> (\<exists>tot stats. calculate_prize [[1, 2, 3, 4, 6]] [1, 2, 3, 4, 5] = Inr (tot, stats, []))"
  using calculate_prize_exact_match
    [of "[1, 2, 3, 4, 5]" "[[1, 2, 3, 4, 6], [1, 2, 3, 4, 5]]" "[1, 2, 3, 4, 6]"]
  by (simp add: enumerate_eq_zip win_at_def PRIZE_VALUES_def upt_rec numeral_2_eq_2)

text \<open>
  C7. When the draw list does not have exactly five elements, the engine returns a
  result (it raises nothing): total 0, an empty tier summary and no win record.
\<close>

theorem calculate_prize_malformed_draw:
  assumes "length prize_numbers \<noteq> 5"
  shows "calculate_prize recs prize_numbers = Inr (0, [], [])"
  using assms by (simp add: calculate_prize_def)

theorem calculate_prize_malformed_draw_witness:
  "length [1, 2, 3 :: int] \<noteq> 5
   \<and> calculate_prize [[1, 2, 3, 4, 5], [1, 2, 3]] [1, 2, 3] = Inr (0, [], [])"
  using calculate_prize_malformed_draw [of "[1, 2, 3]" "[[1, 2, 3, 4, 5], [1, 2, 3]]"]
  by simp

text \<open>
  C10, as stated, fails on an empty list of recommendations: the early return hands back
  an empty tier summary, which holds no count for the direct-selection tier at all.
\<close>

theorem calculate_prize_empty_stats_counterexample:
  "calculate_prize [] [1, 2, 3, 4, 5] = Inr (0, [], [])
   \<and> map_of ([] :: prize_stats) Direct \<noteq> Some (int (length ([] :: win_detail list)))"
  by (simp add: calculate_prize_def)

text \<open>
  C10, amended. Against a draw of exactly five numbers the result is consistent: the
  total is 100000 times the number of win records, the 1-based indices of the win
  records are strictly increasing, and for a non-empty list of recommendations the tier
  summary holds exactly the direct-selection tier with the number of win records; for
  an empty list of recommendations the tier summary is empty.
\<close>

theorem calculate_prize_consistent:
  assumes "length prize_numbers = 5"
  shows "\<exists>details. calculate_prize recs prize_numbers =
            Inr (100000 * int (length details),
                 (if recs = [] then [] else [(Direct, int (length details))]),
                 details)
          \<and> sorted_wrt (<) (map index details)"
proof (cases "recs = []")
  case True
  then show ?thesis by (simp add: calculate_prize_def)
next
  case False
  show ?thesis
    using calculate_prize_result [OF assms False] False
      winners_index_increasing [of prize_numbers 0 recs]
    by auto
qed

theorem calculate_prize_consistent_witness:
  "length [7, 7, 7, 7, 7 :: int] = 5
   \<and> (\<exists>details. calculate_prize [[7, 7, 7, 7, 7], [1, 2, 3, 4, 5], [7, 7, 7, 7, 7]]
                   [7, 7, 7, 7, 7] =
          Inr (100000 * int (length details), [(Direct, int (length details))], details)
        \<and> sorted_wrt (<) (map index details))"
  using calculate_prize_consistent
    [of "[7, 7, 7, 7, 7]" "[[7, 7, 7, 7, 7], [1, 2, 3, 4, 5], [7, 7, 7, 7, 7]]"]
  by simp

section \<open>Draw table loader: \<open>get_period_data_from_csv\<close>\<close>

text \<open>
  \<^verbatim>\<open>re.match(r'^\d{4,7}$', row[0])\<close>: four to seven decimal digits, up to the end of
  the field or up to a line feed that ends it (\<^verbatim>\<open>$\<close> also matches before a final
  line feed).
\<close>

definition match_period :: "ustr \<Rightarrow> bool" where
  "match_period s \<longleftrightarrow>
     (let ds = takeWhile isdecimal s; r = dropWhile isdecimal s
      in 4 \<le> length ds \<and> length ds \<le> 7 \<and> (r = [] \<or> r = [10]))"

text \<open>
  The dictionary \<^verbatim>\<open>period_map\<close>, in insertion order; the value stored under a period
  is the list held by the one key \<^verbatim>\<open>'numbers'\<close> of the inner dictionary.
\<close>

type_synonym period_map = "(ustr \<times> int list) list"

text \<open>
  The test and the conversions the loop makes on one row: \<open>None\<close> when the row is passed
  over (the \<^verbatim>\<open>if\<close> fails, an \<^verbatim>\<open>int\<close> raises \<^verbatim>\<open>ValueError\<close>, or a number is out of
  range), else the period and its five numbers.
\<close>

definition parse_row :: "ustr list \<Rightarrow> (ustr \<times> int list) option" where
  "parse_row row =
     (if length row \<ge> 6 \<and> match_period (row ! 0) then
        (case those (map py_int [row ! 1, row ! 2, row ! 3, row ! 4, row ! 5]) of
           None \<Rightarrow> None
         | Some nums \<Rightarrow>
             if \<not> list_all (\<lambda>num. 0 \<le> num \<and> num \<le> 9) nums then None
             else Some (row ! 0, nums))
      else None)"

fun csv_loop :: "ustr list list \<Rightarrow> period_map \<times> ustr list \<Rightarrow> period_map \<times> ustr list" where
  "csv_loop [] st = st"
| "csv_loop (row # rows) (period_map, periods_list) =
     (case parse_row row of
        None \<Rightarrow> csv_loop rows (period_map, periods_list)
      | Some (period, nums) \<Rightarrow>
          csv_loop rows (AList.update period nums period_map, periods_list @ [period]))"

text \<open>
  \<^verbatim>\<open>sorted(periods_list, key=int)\<close>: the keys are computed first (an \<^verbatim>\<open>int\<close> that raises
  ends the call), then the list is sorted by them, stably.
\<close>

definition sorted_by_int :: "ustr list \<Rightarrow> ustr list option" where
  "sorted_by_int ps =
     (case those (map py_int ps) of
        None \<Rightarrow> None
      | Some ks \<Rightarrow> Some (map snd (sort_key fst (zip ks ps))))"

text \<open>
  The function from \<^verbatim>\<open>next(reader)\<close> on, given the rows the reader yields.  An empty
  reader makes \<^verbatim>\<open>next\<close> raise \<^verbatim>\<open>StopIteration\<close>, which the \<^verbatim>\<open>except Exception\<close> turns
  into \<^verbatim>\<open>(None, None)\<close>; the final \<^verbatim>\<open>sorted\<close> stands outside the \<^verbatim>\<open>try\<close>.
\<close>

definition period_data_of_rows ::
    "ustr list list \<Rightarrow> py_error + (period_map \<times> ustr list) option" where
  "period_data_of_rows all_rows =
     (case all_rows of
        [] \<Rightarrow> Inr None
      | header # rows \<Rightarrow>
          (case csv_loop rows ([], []) of
             (period_map, periods_list) \<Rightarrow>
               if period_map = [] then Inr None
               else (case sorted_by_int periods_list of
                       None \<Rightarrow> Inl ValueError
                     | Some sorted_periods \<Rightarrow> Inr (Some (period_map, sorted_periods)))))"

text \<open>
  The loader itself.  The \<^verbatim>\<open>csv\<close> module is a parameter: \<open>reader text\<close> stands for what
  iterating \<^verbatim>\<open>csv.reader(text.splitlines())\<close> to its end gives, the rows or the
  exception it raises on the way (which discards every row read so far).
\<close>

definition get_period_data_from_csv ::
    "(ustr \<Rightarrow> py_error + ustr list list) \<Rightarrow> ustr \<Rightarrow> py_error + (period_map \<times> ustr list) option" where
  "get_period_data_from_csv reader csv_content =
     (if csv_content = [] then Inr None
      else (case reader csv_content of
              Inl e \<Rightarrow> Inr None
            | Inr all_rows \<Rightarrow> period_data_of_rows all_rows))"

text \<open>
  What the \<^verbatim>\<open>csv\<close> module yields on a text that holds no quote character, no carriage
  return and no line separator other than the line feed: the lines are the pieces
  between line feeds (a final line feed opens no further line), an empty line is a row
  without fields, and any other line is cut at its commas.
\<close>

definition plain_csv :: "ustr \<Rightarrow> py_error + ustr list list" where
  "plain_csv text =
     (let pieces = py_split [10] text;
          lines = (if last pieces = [] then butlast pieces else pieces)
      in Inr (map (\<lambda>line. if line = [] then [] else py_split [44] line) lines))"

section \<open>Properties of the draw table loader\<close>

lemma csv_loop_append: "csv_loop (xs @ ys) st = csv_loop ys (csv_loop xs st)"
proof (induction xs arbitrary: st)
  case Nil
  show ?case by simp
next
  case (Cons row xs)
  obtain pm ps where st: "st = (pm, ps)" by (cases st)
  show ?case
    unfolding st by (cases "parse_row row") (auto simp: Cons.IH)
qed

lemma csv_loop_skip: "parse_row row = None \<Longrightarrow> csv_loop (row # rows) st = csv_loop rows st"
  by (cases st) simp

text \<open>The periods appended by the loop are those of the accepted rows, in row order.\<close>

lemma csv_loop_periods:
  "snd (csv_loop rows (pm, ps)) = ps @ map fst (List.map_filter parse_row rows)"
proof (induction rows arbitrary: pm ps)
  case Nil
  show ?case by (simp add: List.map_filter_simps)
next
  case (Cons row rows)
  show ?case
    by (cases "parse_row row") (auto simp: Cons.IH List.map_filter_simps)
qed

lemma set_alist_update:
  "set (AList.update k v al) \<subseteq> insert (k, v) (set al)"
  by (induction al) auto

text \<open>A property of the stored records and of the periods that every step of the loop keeps.\<close>

lemma csv_loop_invariant:
  assumes "\<And>row period nums. parse_row row = Some (period, nums) \<Longrightarrow> P period nums"
    and "\<forall>(k, nums) \<in> set pm. P k nums"
  shows "\<forall>(k, nums) \<in> set (fst (csv_loop rows (pm, ps))). P k nums"
  using assms(2)
proof (induction rows arbitrary: pm ps)
  case Nil
  then show ?case by simp
next
  case (Cons row rows)
  show ?case
  proof (cases "parse_row row")
    case None
    then show ?thesis using Cons by simp
  next
    case (Some a)
    obtain period nums where a: "a = (period, nums)" by (cases a)
    have "P period nums" using assms(1) Some a by simp
    then have "\<forall>(k, v) \<in> set (AList.update period nums pm). P k v"
      using Cons.prems set_alist_update [of period nums pm] by auto
    then show ?thesis
      using Some a Cons.IH by simp
  qed
qed

lemma those_map_Some: "those (map Some ys) = Some ys"
  by (induction ys) simp_all

lemma those_SomeD: "those xs = Some ys \<Longrightarrow> xs = map Some ys"
proof (induction xs arbitrary: ys)
  case Nil
  then show ?case by simp
next
  case (Cons x xs)
  then show ?case
    by (cases x; cases "those xs") auto
qed

lemma those_eq_Some: "those xs = Some ys \<longleftrightarrow> xs = map Some ys"
  using those_SomeD those_map_Some by blast

lemma those_eq_None: "those xs = None \<longleftrightarrow> None \<in> set xs"
proof (induction xs)
  case Nil
  show ?case by simp
next
  case (Cons x xs)
  show ?case
    using Cons.IH by (cases x; cases "those xs") auto
qed

lemma parse_row_Some:
  assumes "parse_row row = Some (period, nums)"
  shows "length row \<ge> 6 \<and> period = row ! 0 \<and> match_period period
       \<and> map py_int [row ! 1, row ! 2, row ! 3, row ! 4, row ! 5] = map Some nums
       \<and> length nums = 5 \<and> (\<forall>n \<in> set nums. 0 \<le> n \<and> n \<le> 9)"
proof -
  from assms have c: "length row \<ge> 6" "match_period (row ! 0)"
    by (auto simp: parse_row_def split: if_splits)
  from assms c obtain ns where t: "those (map py_int [row ! 1, row ! 2, row ! 3, row ! 4, row ! 5]) = Some ns"
    by (auto simp: parse_row_def split: option.splits)
  from assms c t have r: "list_all (\<lambda>num. 0 \<le> num \<and> num \<le> 9) ns" "period = row ! 0" "nums = ns"
    by (auto simp: parse_row_def split: if_splits)
  from t have m: "map py_int [row ! 1, row ! 2, row ! 3, row ! 4, row ! 5] = map Some ns"
    by (simp only: those_eq_Some)
  have "length (map py_int [row ! 1, row ! 2, row ! 3, row ! 4, row ! 5]) = 5" by simp
  then have "length (map Some ns) = 5" unfolding m .
  then have l: "length ns = 5" by simp
  show ?thesis using c r m l by (auto simp: list_all_iff)
qed

lemma parse_row_None:
  assumes "length row < 6 \<or> \<not> match_period (row ! 0)
     \<or> (\<exists>i \<in> {1..5}. case py_int (row ! i) of None \<Rightarrow> True | Some v \<Rightarrow> v < 0 \<or> 9 < v)"
  shows "parse_row row = None"
proof (rule ccontr)
  assume "parse_row row \<noteq> None"
  then obtain period nums where s: "parse_row row = Some (period, nums)" by auto
  note f = parse_row_Some [OF s]
  from f have m: "map py_int [row ! 1, row ! 2, row ! 3, row ! 4, row ! 5] = map Some nums" by blast
  from f have l: "length nums = 5" by blast
  from f have r: "\<forall>n \<in> set nums. 0 \<le> n \<and> n \<le> 9" by blast
  from l obtain a b c d e where n: "nums = [a, b, c, d, e]"
    by (auto simp: length_Suc_conv numeral_eq_Suc)
  from assms f obtain i where i: "i \<in> {1..5}" "case py_int (row ! i) of None \<Rightarrow> True | Some v \<Rightarrow> v < 0 \<or> 9 < v"
    by auto
  from i(1) have "i = 1 \<or> i = 2 \<or> i = 3 \<or> i = 4 \<or> i = 5" by auto
  then show False using i(2) m r unfolding n by auto
qed


lemma no_underscore_no_double: "95 \<notin> set body \<Longrightarrow> \<not> double_underscore body"
  by (induction body rule: double_underscore.induct) auto

lemma takeWhile_all_then_stop:
  assumes "\<forall>x \<in> set xs. P x" and "r = [] \<or> \<not> P (hd r)"
  shows "takeWhile P (xs @ r) = xs" and "dropWhile P (xs @ r) = r"
proof -
  have t: "takeWhile P r = []" using assms(2) by (cases r) auto
  have d: "dropWhile P r = r" using assms(2) by (cases r) auto
  show "takeWhile P (xs @ r) = xs" using assms(1) t by (simp add: takeWhile_append2)
  show "dropWhile P (xs @ r) = r" using assms(1) d by (simp add: dropWhile_append2)
qed

text \<open>A field accepted as a period is a string \<^verbatim>\<open>int\<close> converts.\<close>

lemma match_period_py_int:
  assumes "match_period p"
  shows "\<exists>v. py_int p = Some v"
proof -
  define ds where "ds = takeWhile isdecimal p"
  define r where "r = dropWhile isdecimal p"
  have p: "p = ds @ r" by (simp add: ds_def r_def)
  from assms have len: "4 \<le> length ds" "length ds \<le> 7" and r: "r = [] \<or> r = [10]"
    by (simp_all add: match_period_def Let_def ds_def r_def)
  have dec: "\<forall>c \<in> set ds. isdecimal c"
    unfolding ds_def by (auto dest: set_takeWhileD)
  from len obtain c cs where ds: "ds = c # cs" by (cases ds) auto
  have c: "isdecimal c" using dec ds by simp
  have nsp: "\<not> int_space c" using c by (rule isdecimal_not_int_space)
  have n95: "\<not> isdecimal 95" and n43: "\<not> isdecimal 43" and n45: "\<not> isdecimal 45"
    and n10: "\<not> isdecimal 10"
    by (simp_all add: isdecimal_below_1632)
  have t: "dropWhile int_space p = p" using nsp by (simp add: p ds)
  have h: "hd p = c" "p \<noteq> []" by (simp_all add: p ds)
  have c_ne: "c \<noteq> 43" "c \<noteq> 45" "c \<noteq> 95" using c n43 n45 n95 by auto
  have body_all: "\<forall>x \<in> set ds. int_body_char x" using dec by (simp add: int_body_char_def)
  have stop: "r = [] \<or> \<not> int_body_char (hd r)"
    using r n10 by (auto simp: int_body_char_def)
  have body: "takeWhile int_body_char p = ds" and rest: "dropWhile int_body_char p = r"
    unfolding p using takeWhile_all_then_stop [OF body_all stop] by simp_all
  have no95: "95 \<notin> set ds" using dec n95 by auto
  have f: "filter (\<lambda>c. c \<noteq> 95) ds = ds" using no95 by (auto simp: filter_id_conv)
  have l95: "last ds \<noteq> 95" using no95 ds by (metis last_in_set list.distinct(1))
  have sp: "dropWhile int_space r = []" using r by (auto simp: int_space_def)
  show ?thesis
    using t h c_ne body rest f l95 sp len no_underscore_no_double [OF no95] ds
    by (simp add: py_int_def Let_def)
qed

lemma sort_key_fst_zip:
  assumes "map f ps = map Some ks"
  shows "map f (map snd (sort_key fst (zip ks ps))) = map Some (map fst (sort_key fst (zip ks ps)))"
proof -
  have len: "length ks = length ps" using assms by (metis length_map)
  have "\<forall>(k, p) \<in> set (zip ks ps). f p = Some k"
  proof clarify
    fix k p assume "(k, p) \<in> set (zip ks ps)"
    then obtain i where i: "i < length ps" "ks ! i = k" "ps ! i = p"
      using len by (auto simp: set_zip)
    have "map f ps ! i = map Some ks ! i" using assms by simp
    then show "f p = Some k" using i len by simp
  qed
  then have "\<forall>(k, p) \<in> set (sort_key fst (zip ks ps)). f p = Some k" by simp
  then show ?thesis by (induction "sort_key fst (zip ks ps)") auto
qed

lemma sorted_by_int_result:
  assumes "those (map py_int ps) = Some ks"
  shows "\<exists>qs. sorted_by_int ps = Some qs \<and> mset qs = mset ps
          \<and> those (map py_int qs) = Some (sort ks)"
proof -
  define zs where "zs = sort_key fst (zip ks ps)"
  have m: "map py_int ps = map Some ks" using assms by (simp only: those_eq_Some)
  then have len: "length ks = length ps" by (metis length_map)
  have s: "sorted_by_int ps = Some (map snd zs)"
    using assms by (simp add: sorted_by_int_def zs_def)
  have "mset zs = mset (zip ks ps)" by (simp add: zs_def)
  then have "mset (map snd zs) = mset (map snd (zip ks ps))" and mk: "mset (map fst zs) = mset (map fst (zip ks ps))"
    by (metis mset_map)+
  then have ms: "mset (map snd zs) = mset ps" using len by simp
  have so: "sorted (map fst zs)" by (simp add: zs_def)
  have "mset (map fst zs) = mset ks" using mk len by simp
  then have "map fst zs = sort ks" using so by (metis properties_for_sort)
  moreover have "map py_int (map snd zs) = map Some (map fst zs)"
    unfolding zs_def by (rule sort_key_fst_zip [OF m])
  ultimately have "those (map py_int (map snd zs)) = Some (sort ks)"
    by (simp only: those_map_Some)
  then show ?thesis using s ms by blast
qed


lemma period_data_of_rows_no_error: "period_data_of_rows all_rows \<noteq> Inl e"
proof (cases all_rows)
  case Nil
  then show ?thesis by (simp add: period_data_of_rows_def)
next
  case (Cons header rows)
  obtain pm ps where l: "csv_loop rows ([], []) = (pm, ps)" by (cases "csv_loop rows ([], [])")
  have ps: "ps = map fst (List.map_filter parse_row rows)"
    using csv_loop_periods [of rows "[]" "[]"] l by simp
  have "None \<notin> set (map py_int ps)"
  proof
    assume "None \<in> set (map py_int ps)"
    then obtain q where q: "q \<in> set ps" "py_int q = None" by auto
    then obtain row nums where "parse_row row = Some (q, nums)"
      unfolding ps by (auto simp: List.map_filter_def)
    then have "match_period q" using parse_row_Some by blast
    then show False using match_period_py_int q(2) by fastforce
  qed
  then obtain ks where "those (map py_int ps) = Some ks"
    using those_eq_None [of "map py_int ps"] by (cases "those (map py_int ps)") auto
  then obtain qs where "sorted_by_int ps = Some qs"
    using sorted_by_int_result by blast
  then show ?thesis using Cons l by (simp add: period_data_of_rows_def)
qed

lemma period_data_of_rows_Some:
  assumes "period_data_of_rows all_rows = Inr (Some (pm, ps))"
  shows "\<exists>header rows ks. all_rows = header # rows \<and> pm = fst (csv_loop rows ([], []))
     \<and> mset ps = mset (map fst (List.map_filter parse_row rows))
     \<and> those (map py_int ps) = Some ks \<and> sorted ks"
proof -
  from assms obtain header rows where a: "all_rows = header # rows"
    by (cases all_rows) (auto simp: period_data_of_rows_def)
  obtain pm0 ps0 where l: "csv_loop rows ([], []) = (pm0, ps0)" by (cases "csv_loop rows ([], [])")
  have ps0: "ps0 = map fst (List.map_filter parse_row rows)"
    using csv_loop_periods [of rows "[]" "[]"] l by simp
  from assms a l have s: "sorted_by_int ps0 = Some ps" and pm: "pm = pm0"
    by (auto simp: period_data_of_rows_def split: if_splits option.splits)
  from s obtain ks0 where k: "those (map py_int ps0) = Some ks0"
    by (auto simp: sorted_by_int_def split: option.splits)
  from sorted_by_int_result [OF k] s have "mset ps = mset ps0" "those (map py_int ps) = Some (sort ks0)"
    by auto
  then show ?thesis using a l pm ps0 by auto
qed

text \<open>
  C3, amended. The loader never raises.  When it returns a period list, the list holds
  one entry for each accepted row of the table (a period of several accepted rows is
  there that many times), every entry converts with \<^verbatim>\<open>int\<close>, and the numeric values
  are ascending, not necessarily strictly: they are strictly ascending exactly when
  they are pairwise different.
\<close>

theorem period_list_ascending:
  "(\<forall>e. get_period_data_from_csv reader content \<noteq> Inl e)
   \<and> (get_period_data_from_csv reader content = Inr (Some (pm, ps)) \<longrightarrow>
        (\<exists>header rows ks. reader content = Inr (header # rows)
            \<and> mset ps = mset (map fst (List.map_filter parse_row rows))
            \<and> those (map py_int ps) = Some ks \<and> sorted ks
            \<and> (sorted_wrt (<) ks \<longleftrightarrow> distinct ks)))"
proof (intro conjI allI impI)
  fix e
  show "get_period_data_from_csv reader content \<noteq> Inl e"
    using period_data_of_rows_no_error
    by (auto simp: get_period_data_from_csv_def split: sum.splits)
next
  assume a: "get_period_data_from_csv reader content = Inr (Some (pm, ps))"
  then obtain all_rows where r: "reader content = Inr all_rows"
    and p: "period_data_of_rows all_rows = Inr (Some (pm, ps))"
    by (auto simp: get_period_data_from_csv_def split: if_splits sum.splits)
  from period_data_of_rows_Some [OF p] obtain header rows ks where
    f: "all_rows = header # rows" "mset ps = mset (map fst (List.map_filter parse_row rows))"
       "those (map py_int ps) = Some ks" "sorted ks"
    by blast
  have "sorted_wrt (<) ks \<longleftrightarrow> distinct ks" using f(4) by (simp add: strict_sorted_iff)
  then show "\<exists>header rows ks. reader content = Inr (header # rows)
            \<and> mset ps = mset (map fst (List.map_filter parse_row rows))
            \<and> those (map py_int ps) = Some ks \<and> sorted ks
            \<and> (sorted_wrt (<) ks \<longleftrightarrow> distinct ks)"
    using r f by blast
qed

lemma asc_simps: "asc [] = []" "asc (c # cs) = of_char c # asc cs"
  by (simp_all add: asc_def)

text \<open>
  C3, as stated, fails: the loop appends the period of every accepted row, so a period
  that two rows carry is twice in the list, which is then not strictly ascending.
\<close>

theorem period_list_duplicate_counterexample:
  "get_period_data_from_csv plain_csv
      (asc ''p,a,b,c,d,e\<newline>1001,1,2,3,4,5\<newline>1001,1,2,3,4,5'')
     = Inr (Some ([(asc ''1001'', [1, 2, 3, 4, 5])], [asc ''1001'', asc ''1001'']))
   \<and> \<not> distinct [asc ''1001'', asc ''1001'']
   \<and> map py_int [asc ''1001'', asc ''1001''] = [Some 1001, Some 1001]
   \<and> \<not> sorted_wrt (<) [1001, 1001 :: int]"
  by (simp add: get_period_data_from_csv_def plain_csv_def py_split_def asc_simps
      period_data_of_rows_def parse_row_def match_period_def isdecimal_below_1632
      sorted_by_int_def py_int_def Let_def int_space_def int_body_char_def
      digits_value_def digit_value_def decimal_below_1632)


theorem period_list_ascending_witness:
  "get_period_data_from_csv plain_csv
      (asc ''p,a,b,c,d,e\<newline>1002,1,2,3,4,5\<newline>1001,5,4,3,2,1'')
     = Inr (Some ([(asc ''1002'', [1, 2, 3, 4, 5]), (asc ''1001'', [5, 4, 3, 2, 1])],
                  [asc ''1001'', asc ''1002'']))
   \<and> (\<exists>ks. those (map py_int [asc ''1001'', asc ''1002'']) = Some ks \<and> sorted ks
          \<and> (sorted_wrt (<) ks \<longleftrightarrow> distinct ks))"
proof -
  have r: "get_period_data_from_csv plain_csv
      (asc ''p,a,b,c,d,e\<newline>1002,1,2,3,4,5\<newline>1001,5,4,3,2,1'')
     = Inr (Some ([(asc ''1002'', [1, 2, 3, 4, 5]), (asc ''1001'', [5, 4, 3, 2, 1])],
                  [asc ''1001'', asc ''1002'']))"
    by (simp add: get_period_data_from_csv_def plain_csv_def py_split_def asc_simps
        period_data_of_rows_def parse_row_def match_period_def isdecimal_below_1632
        sorted_by_int_def py_int_def Let_def int_space_def int_body_char_def
        digits_value_def digit_value_def decimal_below_1632)
  show ?thesis
    using r period_list_ascending [of plain_csv
        "asc ''p,a,b,c,d,e\<newline>1002,1,2,3,4,5\<newline>1001,5,4,3,2,1''"
        "[(asc ''1002'', [1, 2, 3, 4, 5]), (asc ''1001'', [5, 4, 3, 2, 1])]"
        "[asc ''1001'', asc ''1002'']"]
    by blast
qed

text \<open>
  C6. A row with fewer than six fields, or whose first field does not match the period
  pattern, or with one of the fields 1 to 5 that \<^verbatim>\<open>int\<close> rejects or converts to a number
  outside 0..9, is passed over: the result is the one of the table without that row.
  Every record of a mapping the loader returns is stored under a key that matches the
  period pattern and holds exactly five numbers, each from 0 to 9.
\<close>

theorem malformed_rows_excluded:
  "((length row < 6 \<or> \<not> match_period (row ! 0)
       \<or> (\<exists>i \<in> {1..5}. case py_int (row ! i) of None \<Rightarrow> True | Some v \<Rightarrow> v < 0 \<or> 9 < v))
     \<longrightarrow> parse_row row = None
         \<and> period_data_of_rows (header # before @ row # after) =
             period_data_of_rows (header # before @ after))
   \<and> (get_period_data_from_csv reader content = Inr (Some (pm, ps)) \<longrightarrow>
        (\<forall>(k, nums) \<in> set pm.
            match_period k \<and> length nums = 5 \<and> (\<forall>n \<in> set nums. 0 \<le> n \<and> n \<le> 9)))"
proof (intro conjI impI)
  assume bad: "length row < 6 \<or> \<not> match_period (row ! 0)
       \<or> (\<exists>i \<in> {1..5}. case py_int (row ! i) of None \<Rightarrow> True | Some v \<Rightarrow> v < 0 \<or> 9 < v)"
  then show none: "parse_row row = None" by (rule parse_row_None)
  have "csv_loop (before @ row # after) ([], []) = csv_loop (before @ after) ([], [])"
    by (simp add: csv_loop_append csv_loop_skip [OF none])
  then show "period_data_of_rows (header # before @ row # after) =
             period_data_of_rows (header # before @ after)"
    by (simp add: period_data_of_rows_def)
next
  assume a: "get_period_data_from_csv reader content = Inr (Some (pm, ps))"
  then obtain all_rows where p: "period_data_of_rows all_rows = Inr (Some (pm, ps))"
    by (auto simp: get_period_data_from_csv_def split: if_splits sum.splits)
  from period_data_of_rows_Some [OF p] obtain rows where pm: "pm = fst (csv_loop rows ([], []))"
    by blast
  have "\<forall>(k, nums) \<in> set (fst (csv_loop rows ([], []))).
          match_period k \<and> length nums = 5 \<and> (\<forall>n \<in> set nums. 0 \<le> n \<and> n \<le> 9)"
  proof (rule csv_loop_invariant)
    fix r period nums
    assume "parse_row r = Some (period, nums)"
    then show "match_period period \<and> length nums = 5 \<and> (\<forall>n \<in> set nums. 0 \<le> n \<and> n \<le> 9)"
      using parse_row_Some by blast
  qed simp
  then show "\<forall>(k, nums) \<in> set pm.
            match_period k \<and> length nums = 5 \<and> (\<forall>n \<in> set nums. 0 \<le> n \<and> n \<le> 9)"
    unfolding pm .
qed

theorem malformed_rows_excluded_witness:
  "(\<exists>i \<in> {1..5}. case py_int ([asc ''1002'', asc ''1'', asc ''2'', asc ''3'', asc ''4'', asc ''12''] ! i)
                   of None \<Rightarrow> True | Some v \<Rightarrow> v < 0 \<or> 9 < v)
   \<and> parse_row [asc ''1002'', asc ''1'', asc ''2'', asc ''3'', asc ''4'', asc ''12''] = None
   \<and> period_data_of_rows
        ([asc ''p''] # [[asc ''1001'', asc ''1'', asc ''2'', asc ''3'', asc ''4'', asc ''5'']] @
         [asc ''1002'', asc ''1'', asc ''2'', asc ''3'', asc ''4'', asc ''12''] # []) =
      period_data_of_rows
        ([asc ''p''] # [[asc ''1001'', asc ''1'', asc ''2'', asc ''3'', asc ''4'', asc ''5'']] @ [])
   \<and> get_period_data_from_csv plain_csv (asc ''p,a,b,c,d,e\<newline>1001,1,2,3,4,5\<newline>1002,1,2,3,4,12'')
       = Inr (Some ([(asc ''1001'', [1, 2, 3, 4, 5])], [asc ''1001'']))
   \<and> list_all (\<lambda>(k, nums). match_period k \<and> length nums = 5 \<and> list_all (\<lambda>n. 0 \<le> n \<and> n \<le> 9) nums)
        [(asc ''1001'', [1, 2, 3, 4, 5 :: int])]"
proof -
  have i12: "py_int (asc ''12'') = Some 12"
    by (simp add: asc_simps py_int_def Let_def int_space_def int_body_char_def
        isdecimal_below_1632 digits_value_def digit_value_def decimal_below_1632)
  have h: "\<exists>i \<in> {1..5}. case py_int ([asc ''1002'', asc ''1'', asc ''2'', asc ''3'', asc ''4'', asc ''12''] ! i)
                   of None \<Rightarrow> True | Some v \<Rightarrow> v < 0 \<or> 9 < v"
    by (rule bexI [of _ 5]) (simp_all add: i12)
  have r: "get_period_data_from_csv plain_csv (asc ''p,a,b,c,d,e\<newline>1001,1,2,3,4,5\<newline>1002,1,2,3,4,12'')
       = Inr (Some ([(asc ''1001'', [1, 2, 3, 4, 5])], [asc ''1001'']))"
    by (simp add: get_period_data_from_csv_def plain_csv_def py_split_def asc_simps
        period_data_of_rows_def parse_row_def match_period_def isdecimal_below_1632
        sorted_by_int_def py_int_def Let_def int_space_def int_body_char_def
        digits_value_def digit_value_def decimal_below_1632)
  show ?thesis
    using h r malformed_rows_excluded
      [of "[asc ''1002'', asc ''1'', asc ''2'', asc ''3'', asc ''4'', asc ''12'']"
          "[asc ''p'']" "[[asc ''1001'', asc ''1'', asc ''2'', asc ''3'', asc ''4'', asc ''5'']]" "[]"
          plain_csv "asc ''p,a,b,c,d,e\<newline>1001,1,2,3,4,5\<newline>1002,1,2,3,4,12''"
          "[(asc ''1001'', [1, 2, 3, 4, 5])]" "[asc ''1001'']"]
    by (simp add: list_all_iff)
qed

section \<open>Recommendation extractor: \<open>parse_recommendations_from_report\<close>\<close>

subsection \<open>The patterns\<close>

text \<open>
  The regular expressions of the extractor are sequences of literals and of greedy
  repetitions of a character class, where the character that has to follow a repetition
  is never in its class.  Backtracking into a repetition therefore cannot turn a failed
  match into a successful one, and matching is: take the longest run, go on.
  \<open>lit l s\<close> matches the literal \<open>l\<close> at the start of \<open>s\<close> and returns what follows it.
\<close>

definition lit :: "ustr \<Rightarrow> ustr \<Rightarrow> ustr option" where
  "lit l s = (if prefix l s then Some (drop (length l) s) else None)"

text \<open>
  \<^verbatim>\<open>re.search\<close>: the match at the first position of the text, from the left, where the
  pattern matches.
\<close>

fun re_search :: "(ustr \<Rightarrow> 'a option) \<Rightarrow> ustr \<Rightarrow> 'a option" where
  "re_search m [] = m []"
| "re_search m (c # cs) = (case m (c # cs) of Some r \<Rightarrow> Some r | None \<Rightarrow> re_search m cs)"

text \<open>The class \<^verbatim>\<open>[0-9\s,]\<close>.\<close>

definition bet_char :: "nat \<Rightarrow> bool" where
  "bet_char c \<longleftrightarrow> (48 \<le> c \<and> c \<le> 57) \<or> isspace c \<or> c = 44"

text \<open>\<^verbatim>\<open>\s*\[([0-9\s,]+)\]\<close>: the group and the text after the closing bracket.\<close>

definition match_bracket :: "ustr \<Rightarrow> (ustr \<times> ustr) option" where
  "match_bracket s =
     (case lit [91] (dropWhile isspace s) of
        None \<Rightarrow> None
      | Some s1 \<Rightarrow>
          if takeWhile bet_char s1 = [] then None
          else (case lit [93] (dropWhile bet_char s1) of
                  None \<Rightarrow> None
                | Some s2 \<Rightarrow> Some (takeWhile bet_char s1, s2)))"

text \<open>The character U+6CE8 (``bet'') that opens the label of a single bet.\<close>

definition ZHU :: nat where
  "ZHU = 0x6CE8"

text \<open>
  \<^verbatim>\<open>rec_pattern\<close>: U+6CE8, \<^verbatim>\<open>\s*\d+:\<close>, then the bracket; matched at the start of \<open>s\<close>.
  The digits of the label are matched and dropped.
\<close>

definition match_rec :: "ustr \<Rightarrow> (ustr \<times> ustr) option" where
  "match_rec s =
     (case lit [ZHU] s of
        None \<Rightarrow> None
      | Some s1 \<Rightarrow>
          if takeWhile isdecimal (dropWhile isspace s1) = [] then None
          else (case lit [58] (dropWhile isdecimal (dropWhile isspace s1)) of
                  None \<Rightarrow> None
                | Some s2 \<Rightarrow> match_bracket s2))"

lemma lit_Some: "lit l s = Some r \<Longrightarrow> s = l @ r"
  by (auto simp: lit_def prefix_def split: if_splits)

lemma match_bracket_shorter: "match_bracket s = Some (g, r) \<Longrightarrow> length r < length s"
proof -
  assume a: "match_bracket s = Some (g, r)"
  then obtain s1 where s1: "lit [91] (dropWhile isspace s) = Some s1"
    by (auto simp: match_bracket_def split: option.splits)
  with a have s2: "lit [93] (dropWhile bet_char s1) = Some r"
    by (auto simp: match_bracket_def split: option.splits if_splits)
  have "length s1 < length (dropWhile isspace s)" using lit_Some [OF s1] by simp
  moreover have "length (dropWhile isspace s) \<le> length s" by (rule length_dropWhile_le)
  moreover have "length r < length (dropWhile bet_char s1)" using lit_Some [OF s2] by simp
  moreover have "length (dropWhile bet_char s1) \<le> length s1" by (rule length_dropWhile_le)
  ultimately show ?thesis by linarith
qed

lemma match_rec_shorter: "match_rec s = Some (g, r) \<Longrightarrow> length r < length s"
proof -
  assume a: "match_rec s = Some (g, r)"
  then obtain s1 where s1: "lit [ZHU] s = Some s1"
    by (auto simp: match_rec_def split: option.splits)
  with a obtain s2 where s2: "lit [58] (dropWhile isdecimal (dropWhile isspace s1)) = Some s2"
    and b: "match_bracket s2 = Some (g, r)"
    by (auto simp: match_rec_def split: option.splits if_splits)
  have "length s1 < length s" using lit_Some [OF s1] by simp
  moreover have "length s2 < length (dropWhile isdecimal (dropWhile isspace s1))"
    using lit_Some [OF s2] by simp
  moreover have "length (dropWhile isdecimal (dropWhile isspace s1)) \<le> length s1"
    by (meson length_dropWhile_le order_trans)
  moreover note match_bracket_shorter [OF b]
  ultimately show ?thesis by linarith
qed

text \<open>
  \<^verbatim>\<open>rec_pattern.finditer(content)\<close>: the groups of the matches found from the left; the
  search goes on after a match, and one character further where there is none.
\<close>

function finditer_rec :: "ustr \<Rightarrow> ustr list" where
  "finditer_rec [] = []"
| "finditer_rec (c # cs) =
     (case match_rec (c # cs) of
        None \<Rightarrow> finditer_rec cs
      | Some (g, rest) \<Rightarrow> g # finditer_rec rest)"
  by pat_completeness auto
termination
proof (relation "measure length")
  show "wf (measure length)" by simp
next
  fix c cs
  show "(cs, c # cs) \<in> measure length" by simp
next
  fix c cs x2 x y
  assume "match_rec (c # cs) = Some x2" and "(x, y) = x2"
  then have "match_rec (c # cs) = Some (x, y)" by simp
  then show "(y, c # cs) \<in> measure length"
    using match_rec_shorter by fastforce
qed

subsection \<open>The extractor\<close>

definition py_strip :: "ustr \<Rightarrow> ustr" where
  "py_strip s = rev (dropWhile isspace (rev (dropWhile isspace s)))"

text \<open>
  \<^verbatim>\<open>[int(x.strip()) for x in re.findall(r'\d', numbers_str)]\<close>; \<open>None\<close> when an \<^verbatim>\<open>int\<close>
  raises \<^verbatim>\<open>ValueError\<close>.
\<close>

definition bracket_numbers :: "ustr \<Rightarrow> int list option" where
  "bracket_numbers numbers_str =
     those (map (\<lambda>x. py_int (py_strip [x])) (filter isdecimal numbers_str))"

text \<open>What one match of \<^verbatim>\<open>rec_pattern\<close> appends to \<^verbatim>\<open>result['single']\<close>.\<close>

definition single_of :: "ustr \<Rightarrow> int list list" where
  "single_of numbers_str =
     (case bracket_numbers numbers_str of
        None \<Rightarrow> []
      | Some nums \<Rightarrow>
          if length nums = 5 \<and> list_all (\<lambda>num. 0 \<le> num \<and> num \<le> 9) nums
          then [nums] else [])"

text \<open>
  The five position labels, U+7B2C, the numeral of the position (U+4E00, U+4E8C,
  U+4E09, U+56DB, U+4E94), U+4F4D U+63A8 U+8350 and a colon; and the label of the target
  period, U+672C U+6B21 U+9884 U+6D4B U+76EE U+6807 and a colon.
\<close>

datatype position = Pos1 | Pos2 | Pos3 | Pos4 | Pos5

definition duplex_label :: "position \<Rightarrow> ustr" where
  "duplex_label pos =
     [0x7B2C,
      (case pos of Pos1 \<Rightarrow> 0x4E00 | Pos2 \<Rightarrow> 0x4E8C | Pos3 \<Rightarrow> 0x4E09 | Pos4 \<Rightarrow> 0x56DB
       | Pos5 \<Rightarrow> 0x4E94),
      0x4F4D, 0x63A8, 0x8350, 58]"

definition duplex_entry :: "position \<Rightarrow> ustr \<Rightarrow> (position \<times> int list) option" where
  "duplex_entry pos content =
     (case re_search (\<lambda>s. case lit (duplex_label pos) s of
                               None \<Rightarrow> None | Some s1 \<Rightarrow> match_bracket s1) content of
        None \<Rightarrow> None
      | Some (numbers_str, rest) \<Rightarrow>
          (case bracket_numbers numbers_str of
             None \<Rightarrow> None
           | Some nums \<Rightarrow>
               if filter (\<lambda>num. 0 \<le> num \<and> num \<le> 9) nums = [] then None
               else Some (pos, sort (remdups (filter (\<lambda>num. 0 \<le> num \<and> num \<le> 9) nums)))))"

text \<open>
  The target period: the label, \<^verbatim>\<open>\s*\<close>, U+7B2C, \<^verbatim>\<open>\s*(\d+)\s*\<close>, U+671F; the group is
  the run of digits.
\<close>

definition match_target :: "ustr \<Rightarrow> ustr option" where
  "match_target s =
     (case lit [0x672C, 0x6B21, 0x9884, 0x6D4B, 0x76EE, 0x6807, 58] s of
        None \<Rightarrow> None
      | Some s1 \<Rightarrow>
          (case lit [0x7B2C] (dropWhile isspace s1) of
             None \<Rightarrow> None
           | Some s2 \<Rightarrow>
               if takeWhile isdecimal (dropWhile isspace s2) = [] then None
               else (case lit [0x671F]
                            (dropWhile isspace (dropWhile isdecimal (dropWhile isspace s2))) of
                       None \<Rightarrow> None
                     | Some s3 \<Rightarrow> Some (takeWhile isdecimal (dropWhile isspace s2)))))"

record recommendations =
  single :: "int list list"
  duplex :: "(position \<times> int list) list"
  target_period :: ustr

definition parse_recommendations_from_report :: "ustr \<Rightarrow> recommendations" where
  "parse_recommendations_from_report content =
     \<lparr>single = concat (map single_of (finditer_rec content)),
      duplex = List.map_filter (\<lambda>pos. duplex_entry pos content) [Pos1, Pos2, Pos3, Pos4, Pos5],
      target_period = (case re_search match_target content of None \<Rightarrow> [] | Some g \<Rightarrow> g)\<rparr>"

section \<open>Properties of the recommendation extractor\<close>

lemma dropWhile_stop: "\<not> P z \<Longrightarrow> dropWhile P (x @ z # y) = dropWhile P x @ z # y"
  by (induction x) auto

lemma takeWhile_stop: "\<not> P z \<Longrightarrow> takeWhile P (x @ z # y) = takeWhile P x"
  by (induction x) auto

lemma lit_single_stop:
  "z \<noteq> a \<Longrightarrow> lit [a] (x @ z # y) = map_option (\<lambda>r. r @ z # y) (lit [a] x)"
  by (cases x) (auto simp: lit_def)

lemma lit_single_nonempty:
  "x \<noteq> [] \<Longrightarrow> lit [a] (x @ y) = map_option (\<lambda>r. r @ y) (lit [a] x)"
  by (cases x) (auto simp: lit_def)

lemma match_bracket_stop:
  assumes "\<not> isspace z" "\<not> bet_char z" "z \<noteq> 91" "z \<noteq> 93"
  shows "match_bracket (x @ z # y) = map_option (\<lambda>(g, r). (g, r @ z # y)) (match_bracket x)"
proof (cases "lit [91] (dropWhile isspace x)")
  case None
  then show ?thesis
    using assms by (simp add: match_bracket_def dropWhile_stop lit_single_stop)
next
  case (Some s1)
  show ?thesis
  proof (cases "lit [93] (dropWhile bet_char s1)")
    case None
    then show ?thesis
      using assms Some
      by (simp add: match_bracket_def dropWhile_stop lit_single_stop takeWhile_stop)
  next
    case (Some s2)
    then show ?thesis
      using assms \<open>lit [91] (dropWhile isspace x) = Some s1\<close>
      by (simp add: match_bracket_def dropWhile_stop lit_single_stop takeWhile_stop)
  qed
qed

lemma ZHU_class: "\<not> isspace ZHU" "\<not> bet_char ZHU" "\<not> isdecimal ZHU" "ZHU \<noteq> 91" "ZHU \<noteq> 93" "ZHU \<noteq> 58"
  by (simp_all add: ZHU_def isspace_def bet_char_def isdecimal_iff decimal_zeros_def)

lemma match_rec_stop:
  assumes "x \<noteq> []"
  shows "match_rec (x @ ZHU # y) = map_option (\<lambda>(g, r). (g, r @ ZHU # y)) (match_rec x)"
proof (cases "lit [ZHU] x")
  case None
  then show ?thesis using assms by (simp add: match_rec_def lit_single_nonempty)
next
  case (Some s1)
  show ?thesis
  proof (cases "lit [58] (dropWhile isdecimal (dropWhile isspace s1))")
    case None
    then show ?thesis
      using assms Some ZHU_class
      by (simp add: match_rec_def lit_single_nonempty dropWhile_stop takeWhile_stop lit_single_stop)
  next
    case (Some s2)
    then show ?thesis
      using assms \<open>lit [ZHU] x = Some s1\<close> ZHU_class
      by (simp add: match_rec_def lit_single_nonempty dropWhile_stop takeWhile_stop
          lit_single_stop match_bracket_stop)
  qed
qed

lemma finditer_rec_stop:
  "finditer_rec (pre @ ZHU # y) = finditer_rec pre @ finditer_rec (ZHU # y)"
proof (induction pre rule: finditer_rec.induct)
  case 1
  show ?case by simp
next
  case (2 c cs)
  show ?case
  proof (cases "match_rec (c # cs)")
    case None
    then have "match_rec ((c # cs) @ ZHU # y) = None"
      using match_rec_stop [of "c # cs" y] by simp
    then show ?thesis using None 2(1) by simp
  next
    case (Some a)
    obtain g r where a: "a = (g, r)" by (cases a)
    have "match_rec ((c # cs) @ ZHU # y) = Some (g, r @ ZHU # y)"
      using Some a match_rec_stop [of "c # cs" y] by simp
    then show ?thesis using Some a 2(2) by simp
  qed
qed


lemma match_bracket_line:
  assumes "\<forall>c \<in> set ws. isspace c" "body \<noteq> []" "\<forall>c \<in> set body. bet_char c"
  shows "match_bracket (ws @ [91] @ body @ [93] @ post) = Some (body, post)"
proof -
  have n91: "\<not> isspace 91" and n93: "\<not> bet_char 93"
    by (simp_all add: isspace_def bet_char_def)
  have d: "dropWhile isspace (ws @ [91] @ body @ [93] @ post) = [91] @ body @ [93] @ post"
    using assms(1) n91 by (simp add: dropWhile_append2)
  have l: "lit [91] ([91] @ body @ [93] @ post) = Some (body @ [93] @ post)"
    by (simp add: lit_def)
  have t: "takeWhile bet_char (body @ [93] @ post) = body"
    using assms(3) n93 by (simp add: takeWhile_append2)
  have d2: "dropWhile bet_char (body @ [93] @ post) = [93] @ post"
    using assms(3) n93 by (simp add: dropWhile_append2)
  have l2: "lit [93] ([93] @ post) = Some post" by (simp add: lit_def)
  show ?thesis
    unfolding match_bracket_def d l using assms(2) by (simp only: t d2 l2 option.case if_False)
qed

lemma match_rec_line:
  assumes "\<forall>c \<in> set ws1. isspace c" "idx \<noteq> []" "\<forall>c \<in> set idx. isdecimal c"
    "\<forall>c \<in> set ws2. isspace c" "body \<noteq> []" "\<forall>c \<in> set body. bet_char c"
  shows "match_rec ([ZHU] @ ws1 @ idx @ [58] @ ws2 @ [91] @ body @ [93] @ post) = Some (body, post)"
proof -
  let ?tail = "ws2 @ [91] @ body @ [93] @ post"
  have n58: "\<not> isdecimal 58" by (simp add: isdecimal_below_1632)
  obtain i rest where idx: "idx = i # rest" using assms(2) by (cases idx) auto
  have ni: "\<not> isspace i" using assms(3) idx isdecimal_not_isspace by simp
  have l: "lit [ZHU] ([ZHU] @ ws1 @ idx @ [58] @ ?tail) = Some (ws1 @ idx @ [58] @ ?tail)"
    by (simp add: lit_def)
  have d: "dropWhile isspace (ws1 @ idx @ [58] @ ?tail) = idx @ [58] @ ?tail"
    using assms(1) ni idx by (simp add: dropWhile_append2)
  have t: "takeWhile isdecimal (idx @ [58] @ ?tail) = idx"
    using assms(3) n58 by (simp add: takeWhile_append2)
  have d2: "dropWhile isdecimal (idx @ [58] @ ?tail) = [58] @ ?tail"
    using assms(3) n58 by (simp add: dropWhile_append2)
  have l2: "lit [58] ([58] @ ?tail) = Some ?tail" by (simp add: lit_def)
  show ?thesis
    unfolding match_rec_def l using assms(2)
    by (simp only: d t d2 l2 option.case if_False match_bracket_line [OF assms(4,5,6)])
qed

lemma bracket_numbers_bet:
  assumes "\<forall>c \<in> set body. bet_char c"
  shows "bracket_numbers body = Some (map (\<lambda>c. int c - 48) (filter isdecimal body))"
proof -
  have "\<forall>x \<in> set (filter isdecimal body). py_int (py_strip [x]) = Some (int x - 48)"
  proof
    fix x assume "x \<in> set (filter isdecimal body)"
    then have x: "x \<in> set body" and dx: "isdecimal x" by auto
    have b: "bet_char x" using assms x by simp
    have ns: "\<not> isspace x" using dx by (rule isdecimal_not_isspace)
    have "x \<noteq> 44" using dx by (auto simp: isdecimal_below_1632)
    then have r: "48 \<le> x" "x \<le> 57" using b ns by (auto simp: bet_char_def)
    have "py_strip [x] = [x]" using ns by (simp add: py_strip_def)
    moreover have "py_int [x] = Some (int x - 48)"
      using r
      by (simp add: py_int_def Let_def int_space_def int_body_char_def isdecimal_below_1632
          digits_value_def digit_value_def decimal_below_1632)
    ultimately show "py_int (py_strip [x]) = Some (int x - 48)" by simp
  qed
  then have "map (\<lambda>x. py_int (py_strip [x])) (filter isdecimal body) =
        map Some (map (\<lambda>c. int c - 48) (filter isdecimal body))"
    by (simp only: map_map o_def cong: map_cong)
  then show ?thesis by (simp only: bracket_numbers_def those_map_Some)
qed

lemma single_of_bet:
  assumes "\<forall>c \<in> set body. bet_char c"
  shows "single_of body = (if length (filter isdecimal body) = 5
                           then [map (\<lambda>c. int c - 48) (filter isdecimal body)] else [])"
proof -
  have "\<forall>c \<in> set (filter isdecimal body). 48 \<le> c \<and> c \<le> 57"
  proof
    fix c assume "c \<in> set (filter isdecimal body)"
    then have b: "bet_char c" and d: "isdecimal c" using assms by auto
    have "\<not> isspace c" using d by (rule isdecimal_not_isspace)
    moreover have "c \<noteq> 44" using d by (auto simp: isdecimal_below_1632)
    ultimately show "48 \<le> c \<and> c \<le> 57" using b by (auto simp: bet_char_def)
  qed
  then have "list_all (\<lambda>num. 0 \<le> num \<and> num \<le> 9) (map (\<lambda>c. int c - 48) (filter isdecimal body))"
    by (auto simp: list_all_iff)
  then show ?thesis
    by (simp add: single_of_def bracket_numbers_bet [OF assms])
qed

lemma single_of_shape: "b \<in> set (single_of g) \<Longrightarrow> length b = 5 \<and> (\<forall>n \<in> set b. 0 \<le> n \<and> n \<le> 9)"
  by (auto simp: single_of_def list_all_iff split: option.splits if_splits)


lemma single_line_decomposition:
  assumes "\<forall>c \<in> set ws1. isspace c" "idx \<noteq> []" "\<forall>c \<in> set idx. isdecimal c"
    "\<forall>c \<in> set ws2. isspace c" "body \<noteq> []" "\<forall>c \<in> set body. bet_char c"
  shows "single (parse_recommendations_from_report
            (pre @ [ZHU] @ ws1 @ idx @ [58] @ ws2 @ [91] @ body @ [93] @ post)) =
         single (parse_recommendations_from_report pre) @
         (if length (filter isdecimal body) = 5
          then [map (\<lambda>c. int c - 48) (filter isdecimal body)] else []) @
         single (parse_recommendations_from_report post)"
proof -
  let ?line = "[ZHU] @ ws1 @ idx @ [58] @ ws2 @ [91] @ body @ [93] @ post"
  have "finditer_rec (pre @ ZHU # (ws1 @ idx @ [58] @ ws2 @ [91] @ body @ [93] @ post)) =
        finditer_rec pre @ finditer_rec (ZHU # (ws1 @ idx @ [58] @ ws2 @ [91] @ body @ [93] @ post))"
    by (rule finditer_rec_stop)
  moreover have "finditer_rec (ZHU # (ws1 @ idx @ [58] @ ws2 @ [91] @ body @ [93] @ post)) =
        body # finditer_rec post"
    using match_rec_line [OF assms, of post] by simp
  ultimately have "finditer_rec (pre @ ?line) = finditer_rec pre @ body # finditer_rec post"
    by simp
  then show ?thesis
    by (simp add: parse_recommendations_from_report_def single_of_bet [OF assms(6)])
qed

text \<open>
  C4, amended. A single-bet line (U+6CE8, white space, a label of digits, a colon, white
  space, and in brackets a non-empty body of ASCII digits, white space and commas)
  contributes, wherever it stands in the report, exactly the digits of its body as one
  recommendation when the body holds exactly five digits, and nothing otherwise, so
  nothing when it holds fewer than five.  The recommendation is stored after those of
  the text before the line and before those of the text after it: its place is its rank
  among the stored singles, not the number of its label.  The line labelled 3 with the
  body \<open>1, 2, 3, 4, 5\<close> gives the recommendation 1 2 3 4 5.  Every stored single has
  five numbers from 0 to 9.
\<close>

theorem single_bet_line_extracted:
  assumes "\<forall>c \<in> set ws1. isspace c" "idx \<noteq> []" "\<forall>c \<in> set idx. isdecimal c"
    "\<forall>c \<in> set ws2. isspace c" "body \<noteq> []" "\<forall>c \<in> set body. bet_char c"
  shows "single (parse_recommendations_from_report
            (pre @ [ZHU] @ ws1 @ idx @ [58] @ ws2 @ [91] @ body @ [93] @ post)) =
         single (parse_recommendations_from_report pre) @
         (if length (filter isdecimal body) = 5
          then [map (\<lambda>c. int c - 48) (filter isdecimal body)] else []) @
         single (parse_recommendations_from_report post)
       \<and> single (parse_recommendations_from_report
            (pre @ [ZHU] @ asc '' 3: [1, 2, 3, 4, 5]'' @ post)) =
         single (parse_recommendations_from_report pre) @ [[1, 2, 3, 4, 5]] @
         single (parse_recommendations_from_report post)
       \<and> (\<forall>b \<in> set (single (parse_recommendations_from_report content)).
            length b = 5 \<and> (\<forall>n \<in> set b. 0 \<le> n \<and> n \<le> 9))"
proof (intro conjI)
  show "single (parse_recommendations_from_report
            (pre @ [ZHU] @ ws1 @ idx @ [58] @ ws2 @ [91] @ body @ [93] @ post)) =
         single (parse_recommendations_from_report pre) @
         (if length (filter isdecimal body) = 5
          then [map (\<lambda>c. int c - 48) (filter isdecimal body)] else []) @
         single (parse_recommendations_from_report post)"
    using assms by (rule single_line_decomposition)
next
  have "single (parse_recommendations_from_report
            (pre @ [ZHU] @ [32] @ [51] @ [58] @ [32] @ [91] @ asc ''1, 2, 3, 4, 5'' @ [93] @ post)) =
         single (parse_recommendations_from_report pre) @
         (if length (filter isdecimal (asc ''1, 2, 3, 4, 5'')) = 5
          then [map (\<lambda>c. int c - 48) (filter isdecimal (asc ''1, 2, 3, 4, 5''))] else []) @
         single (parse_recommendations_from_report post)"
    by (rule single_line_decomposition)
       (simp_all add: asc_simps isspace_def bet_char_def isdecimal_below_1632)
  then show "single (parse_recommendations_from_report
            (pre @ [ZHU] @ asc '' 3: [1, 2, 3, 4, 5]'' @ post)) =
         single (parse_recommendations_from_report pre) @ [[1, 2, 3, 4, 5]] @
         single (parse_recommendations_from_report post)"
    by (simp add: asc_simps isdecimal_below_1632)
next
  show "\<forall>b \<in> set (single (parse_recommendations_from_report content)).
            length b = 5 \<and> (\<forall>n \<in> set b. 0 \<le> n \<and> n \<le> 9)"
    using single_of_shape by (auto simp: parse_recommendations_from_report_def)
qed

theorem single_bet_line_extracted_witness:
  "list_all isspace [32] \<and> asc ''12'' \<noteq> [] \<and> list_all isdecimal (asc ''12'')
   \<and> asc ''7,7,7,7'' \<noteq> [] \<and> list_all bet_char (asc ''7,7,7,7'')
   \<and> single (parse_recommendations_from_report
        (asc ''x'' @ [ZHU] @ [32] @ asc ''12'' @ [58] @ [32] @ [91] @ asc ''7,7,7,7'' @ [93] @ asc ''y'')) = []
   \<and> single (parse_recommendations_from_report
        (asc ''x'' @ [ZHU] @ asc '' 3: [1, 2, 3, 4, 5]'' @ asc ''y'')) = [[1, 2, 3, 4, 5]]"
proof -
  have h: "\<forall>c \<in> set [32]. isspace c" "asc ''12'' \<noteq> []" "\<forall>c \<in> set (asc ''12''). isdecimal c"
    "asc ''7,7,7,7'' \<noteq> []" "\<forall>c \<in> set (asc ''7,7,7,7''). bet_char c"
    by (simp_all add: asc_simps isspace_def bet_char_def isdecimal_below_1632)
  have e: "single (parse_recommendations_from_report (asc ''x'')) = []"
    "single (parse_recommendations_from_report (asc ''y'')) = []"
    by (simp_all add: parse_recommendations_from_report_def asc_simps match_rec_def lit_def ZHU_def)
  show ?thesis
    using h e single_bet_line_extracted [OF h(1) h(2) h(3) h(1) h(4) h(5), of "asc ''x''" "asc ''y''"]
    by (simp add: asc_simps isdecimal_below_1632 list_all_iff)
qed

text \<open>
  C4, as stated, fails: the pattern matches the number of the label and drops it.  A
  report made of the one line labelled 3 stores its recommendation as the first and
  only single, and the scoring engine reports it as bet 1.
\<close>

theorem label_index_ignored_counterexample:
  "single (parse_recommendations_from_report ([ZHU] @ asc '' 3: [1, 2, 3, 4, 5]'')) = [[1, 2, 3, 4, 5]]
   \<and> length [[1, 2, 3, 4, 5 :: int]] < 3
   \<and> calculate_prize [[1, 2, 3, 4, 5]] [1, 2, 3, 4, 5] =
       Inr (100000, [(Direct, 1)],
            [\<lparr>index = 1, numbers = [1, 2, 3, 4, 5], prize_type = Direct, prize_amount = 100000\<rparr>])"
proof -
  have "single (parse_recommendations_from_report
            ([] @ [ZHU] @ [32] @ [51] @ [58] @ [32] @ [91] @ asc ''1, 2, 3, 4, 5'' @ [93] @ [])) =
         single (parse_recommendations_from_report []) @
         (if length (filter isdecimal (asc ''1, 2, 3, 4, 5'')) = 5
          then [map (\<lambda>c. int c - 48) (filter isdecimal (asc ''1, 2, 3, 4, 5''))] else []) @
         single (parse_recommendations_from_report [])"
    by (rule single_line_decomposition)
       (simp_all add: asc_simps isspace_def bet_char_def isdecimal_below_1632)
  then have "single (parse_recommendations_from_report ([ZHU] @ asc '' 3: [1, 2, 3, 4, 5]'')) =
        [[1, 2, 3, 4, 5]]"
    by (simp add: asc_simps isdecimal_below_1632 parse_recommendations_from_report_def)
  moreover have "calculate_prize [[1, 2, 3, 4, 5]] [1, 2, 3, 4, 5] =
       Inr (100000, [(Direct, 1)],
            [\<lparr>index = 1, numbers = [1, 2, 3, 4, 5], prize_type = Direct, prize_amount = 100000\<rparr>])"
    by (simp add: calculate_prize_def PRIZE_VALUES_def)
  ultimately show ?thesis by simp
qed


section \<open>Robust text read: \<open>robust_file_read\<close>\<close>

datatype encoding = UTF8 | GBK | LATIN1

text \<open>The list \<^verbatim>\<open>encodings\<close> of the function, in its order.\<close>

definition encodings :: "encoding list" where
  "encodings = [UTF8, GBK, LATIN1]"

text \<open>
  The files the script sees.  \<open>file_exists\<close> is \<^verbatim>\<open>os.path.exists\<close>; \<open>read_text path e\<close> is
  what \<^verbatim>\<open>open(path, 'r', encoding=e)\<close> followed by \<^verbatim>\<open>f.read()\<close> gives: the decoded text,
  or \<open>None\<close> when one of the two raises \<^verbatim>\<open>UnicodeDecodeError\<close> or \<^verbatim>\<open>IOError\<close>, the
  exceptions the function catches.  The codecs themselves belong to the interpreter.
\<close>

record filesystem =
  file_exists :: "ustr \<Rightarrow> bool"
  read_text :: "ustr \<Rightarrow> encoding \<Rightarrow> ustr option"

text \<open>The loop \<^verbatim>\<open>for encoding in encodings\<close>: the first attempt that succeeds returns.\<close>

fun try_encodings :: "(encoding \<Rightarrow> ustr option) \<Rightarrow> encoding list \<Rightarrow> ustr option" where
  "try_encodings attempt [] = None"
| "try_encodings attempt (e # es) =
     (case attempt e of
        Some text \<Rightarrow> Some text
      | None \<Rightarrow> try_encodings attempt es)"

definition robust_file_read :: "filesystem \<Rightarrow> ustr \<Rightarrow> ustr option" where
  "robust_file_read fs file_path =
     (if \<not> file_exists fs file_path then None
      else try_encodings (read_text fs file_path) encodings)"

section \<open>Properties of the robust text read\<close>

lemma try_encodings_None:
  "try_encodings attempt es = None \<longleftrightarrow> (\<forall>e \<in> set es. attempt e = None)"
  by (induction es) (auto split: option.splits)

lemma try_encodings_Some:
  "try_encodings attempt es = Some text \<Longrightarrow>
     \<exists>i < length es. attempt (es ! i) = Some text \<and> (\<forall>j < i. attempt (es ! j) = None)"
proof (induction es)
  case Nil
  then show ?case by simp
next
  case (Cons e es)
  show ?case
  proof (cases "attempt e")
    case None
    with Cons obtain i where i: "i < length es" "attempt (es ! i) = Some text"
      "\<forall>j < i. attempt (es ! j) = None"
      by auto
    have "\<forall>j < Suc i. attempt ((e # es) ! j) = None"
      using None i(3) by (auto simp: less_Suc_eq_0_disj)
    then show ?thesis using i by (intro exI [of _ "Suc i"]) simp
  next
    case (Some t)
    with Cons.prems have "t = text" by simp
    then show ?thesis using Some by (intro exI [of _ 0]) simp
  qed
qed

text \<open>
  C9. The reader tries the encodings UTF-8, GBK, Latin-1 in this order and returns the
  text of the first attempt that succeeds: every earlier attempt has failed.  It returns
  no content exactly when the file does not exist or every attempt fails.
\<close>

theorem robust_file_read_first_success:
  "encodings = [UTF8, GBK, LATIN1]
   \<and> (robust_file_read fs file_path = Some text \<longrightarrow>
        file_exists fs file_path
        \<and> (\<exists>i < length encodings.
              read_text fs file_path (encodings ! i) = Some text
              \<and> (\<forall>j < i. read_text fs file_path (encodings ! j) = None)))
   \<and> (robust_file_read fs file_path = None \<longleftrightarrow>
        \<not> file_exists fs file_path
        \<or> (\<forall>e \<in> set encodings. read_text fs file_path e = None))"
proof (intro conjI impI)
  show "encodings = [UTF8, GBK, LATIN1]" by (simp add: encodings_def)
next
  assume a: "robust_file_read fs file_path = Some text"
  then show "file_exists fs file_path"
    by (simp add: robust_file_read_def split: if_splits)
next
  assume a: "robust_file_read fs file_path = Some text"
  then have "try_encodings (read_text fs file_path) encodings = Some text"
    by (simp add: robust_file_read_def split: if_splits)
  then show "\<exists>i < length encodings.
              read_text fs file_path (encodings ! i) = Some text
              \<and> (\<forall>j < i. read_text fs file_path (encodings ! j) = None)"
    by (rule try_encodings_Some)
next
  show "robust_file_read fs file_path = None \<longleftrightarrow>
        \<not> file_exists fs file_path
        \<or> (\<forall>e \<in> set encodings. read_text fs file_path e = None)"
    by (simp add: robust_file_read_def try_encodings_None)
qed

theorem robust_file_read_first_success_witness:
  "robust_file_read
      \<lparr>file_exists = (\<lambda>p. p = asc ''pl5.csv''),
       read_text = (\<lambda>p e. if e = UTF8 then None else Some (asc ''text''))\<rparr>
      (asc ''pl5.csv'') = Some (asc ''text'')
   \<and> (\<exists>i < length encodings.
         read_text \<lparr>file_exists = (\<lambda>p. p = asc ''pl5.csv''),
                    read_text = (\<lambda>p e. if e = UTF8 then None else Some (asc ''text''))\<rparr>
           (asc ''pl5.csv'') (encodings ! i) = Some (asc ''text''))
   \<and> robust_file_read
      \<lparr>file_exists = (\<lambda>p. p = asc ''pl5.csv''),
       read_text = (\<lambda>p e. if e = UTF8 then None else Some (asc ''text''))\<rparr>
      (asc ''none.csv'') = None"
proof -
  let ?fs = "\<lparr>file_exists = (\<lambda>p. p = asc ''pl5.csv''),
       read_text = (\<lambda>p e. if e = UTF8 then None else Some (asc ''text''))\<rparr>"
  have r: "robust_file_read ?fs (asc ''pl5.csv'') = Some (asc ''text'')"
    by (simp add: robust_file_read_def encodings_def)
  have n: "\<not> file_exists ?fs (asc ''none.csv'')"
    by (simp add: asc_simps)
  have "\<exists>i < length encodings.
          read_text ?fs (asc ''pl5.csv'') (encodings ! i) = Some (asc ''text'')"
    using robust_file_read_first_success [of ?fs "asc ''pl5.csv''" "asc ''text''"] r
    by blast
  moreover have "robust_file_read ?fs (asc ''none.csv'') = None"
    using robust_file_read_first_success [of ?fs "asc ''none.csv''" "asc ''text''"] n
    by blast
  ultimately show ?thesis using r by blast
qed

section \<open>Report locator: \<open>find_matching_report\<close>\<close>

text \<open>
  The declared cutoff: the label U+5206 U+6790 U+57FA U+4E8E U+6570 U+636E and a colon,
  \<^verbatim>\<open>\s*\<close>, U+622A U+81F3, \<^verbatim>\<open>\s*(\d+)\s*\<close>, U+671F; the group is the run of digits.
\<close>

definition match_cutoff :: "ustr \<Rightarrow> ustr option" where
  "match_cutoff s =
     (case lit [0x5206, 0x6790, 0x57FA, 0x4E8E, 0x6570, 0x636E, 58] s of
        None \<Rightarrow> None
      | Some s1 \<Rightarrow>
          (case lit [0x622A, 0x81F3] (dropWhile isspace s1) of
             None \<Rightarrow> None
           | Some s2 \<Rightarrow>
               if takeWhile isdecimal (dropWhile isspace s2) = [] then None
               else (case lit [0x671F]
                            (dropWhile isspace (dropWhile isdecimal (dropWhile isspace s2))) of
                       None \<Rightarrow> None
                     | Some s3 \<Rightarrow> Some (takeWhile isdecimal (dropWhile isspace s2)))))"

text \<open>
  \<^verbatim>\<open>_(\d{8}_\d{6})\.txt$\<close>: an underscore, eight digits, an underscore, six digits and
  \<^verbatim>\<open>.txt\<close>, up to the end of the path or up to a line feed that ends it.
\<close>

definition match_stamp :: "ustr \<Rightarrow> ustr option" where
  "match_stamp s =
     (case lit [95] s of
        None \<Rightarrow> None
      | Some s1 \<Rightarrow>
          if \<not> (length (take 8 s1) = 8 \<and> list_all isdecimal (take 8 s1)) then None
          else (case lit [95] (drop 8 s1) of
                  None \<Rightarrow> None
                | Some s2 \<Rightarrow>
                    if \<not> (length (take 6 s2) = 6 \<and> list_all isdecimal (take 6 s2)) then None
                    else (case lit (asc ''.txt'') (drop 6 s2) of
                            None \<Rightarrow> None
                          | Some s3 \<Rightarrow>
                              if s3 = [] \<or> s3 = [10]
                              then Some (take 8 s1 @ [95] @ take 6 s2) else None)))"

subsection \<open>\<^verbatim>\<open>datetime.strptime(timestamp_str, "%Y%m%d_%H%M%S")\<close>\<close>

text \<open>
  A \<^verbatim>\<open>datetime\<close> without time zone is its six fields, year first; such values compare
  field by field from the left, which is the order of the tuples.
\<close>

type_synonym datetime = "nat \<times> nat \<times> nat \<times> nat \<times> nat \<times> nat"

definition ascii_between :: "char \<Rightarrow> char \<Rightarrow> nat \<Rightarrow> bool" where
  "ascii_between lo hi c \<longleftrightarrow> of_char lo \<le> c \<and> c \<le> of_char hi"

text \<open>
  The directives as \<^verbatim>\<open>_strptime\<close> matches them when each takes two characters:
  \<^verbatim>\<open>%m\<close> is \<^verbatim>\<open>1[0-2]|0[1-9]\<close>, \<^verbatim>\<open>%d\<close> is \<^verbatim>\<open>3[0-1]|[1-2]\d|0[1-9]\<close>, \<^verbatim>\<open>%H\<close> is
  \<^verbatim>\<open>2[0-3]|[0-1]\d\<close>, \<^verbatim>\<open>%M\<close> is \<^verbatim>\<open>[0-5]\d\<close>, \<^verbatim>\<open>%S\<close> is \<^verbatim>\<open>6[0-1]|[0-5]\d\<close>.
\<close>

definition month_chars :: "nat \<Rightarrow> nat \<Rightarrow> bool" where
  "month_chars a b \<longleftrightarrow>
     (a = of_char CHR ''1'' \<and> ascii_between CHR ''0'' CHR ''2'' b) \<or>
     (a = of_char CHR ''0'' \<and> ascii_between CHR ''1'' CHR ''9'' b)"

definition day_chars :: "nat \<Rightarrow> nat \<Rightarrow> bool" where
  "day_chars a b \<longleftrightarrow>
     (a = of_char CHR ''3'' \<and> ascii_between CHR ''0'' CHR ''1'' b) \<or>
     (ascii_between CHR ''1'' CHR ''2'' a \<and> isdecimal b) \<or>
     (a = of_char CHR ''0'' \<and> ascii_between CHR ''1'' CHR ''9'' b)"

definition hour_chars :: "nat \<Rightarrow> nat \<Rightarrow> bool" where
  "hour_chars a b \<longleftrightarrow>
     (a = of_char CHR ''2'' \<and> ascii_between CHR ''0'' CHR ''3'' b) \<or>
     (ascii_between CHR ''0'' CHR ''1'' a \<and> isdecimal b)"

definition minute_chars :: "nat \<Rightarrow> nat \<Rightarrow> bool" where
  "minute_chars a b \<longleftrightarrow> ascii_between CHR ''0'' CHR ''5'' a \<and> isdecimal b"

definition second_chars :: "nat \<Rightarrow> nat \<Rightarrow> bool" where
  "second_chars a b \<longleftrightarrow>
     (a = of_char CHR ''6'' \<and> ascii_between CHR ''0'' CHR ''1'' b) \<or>
     (ascii_between CHR ''0'' CHR ''5'' a \<and> isdecimal b)"

definition is_leap :: "nat \<Rightarrow> bool" where
  "is_leap y \<longleftrightarrow> y mod 4 = 0 \<and> (y mod 100 \<noteq> 0 \<or> y mod 400 = 0)"

definition days_in_month :: "nat \<Rightarrow> nat \<Rightarrow> nat" where
  "days_in_month y m =
     (if m = 2 then (if is_leap y then 29 else 28)
      else if m = 4 \<or> m = 6 \<or> m = 9 \<or> m = 11 then 30 else 31)"

text \<open>
  \<^verbatim>\<open>strptime\<close> on the group of \<open>match_stamp\<close>, eight digits, an underscore and six
  digits.  The pattern of the format has to take the whole string, which on this shape
  means two characters for every directive after the year; then \<^verbatim>\<open>datetime\<close> refuses
  the year 0, a day the month does not have, and the seconds 60 and 61 the pattern lets
  through.  Each failure is a \<^verbatim>\<open>ValueError\<close>, here \<open>None\<close>.  On a string of another
  length, which the locator never passes, the model gives \<open>None\<close>.
\<close>

definition strptime_stamp :: "ustr \<Rightarrow> datetime option" where
  "strptime_stamp s =
     (if length s = 15
         \<and> list_all isdecimal (take 4 s)
         \<and> month_chars (s ! 4) (s ! 5) \<and> day_chars (s ! 6) (s ! 7) \<and> s ! 8 = 95
         \<and> hour_chars (s ! 9) (s ! 10) \<and> minute_chars (s ! 11) (s ! 12)
         \<and> second_chars (s ! 13) (s ! 14)
      then
        (let year = digits_value (take 4 s);
             month = digits_value [s ! 4, s ! 5];
             day = digits_value [s ! 6, s ! 7];
             hour = digits_value [s ! 9, s ! 10];
             minute = digits_value [s ! 11, s ! 12];
             second = digits_value [s ! 13, s ! 14]
         in if 1 \<le> year \<and> day \<le> days_in_month year month \<and> second \<le> 59
            then Some (year, month, day, hour, minute, second) else None)
      else None)"

subsection \<open>The locator\<close>

text \<open>
  What the loop does with one file of the listing: \<open>None\<close> when it moves on to the next
  file, else the pair it appends to \<^verbatim>\<open>candidates\<close>.  The parameter \<open>target\<close> is the
  \<^verbatim>\<open>target_period\<close> of the source.
\<close>

definition report_candidate :: "filesystem \<Rightarrow> ustr \<Rightarrow> ustr \<Rightarrow> (datetime \<times> ustr) option" where
  "report_candidate fs target file_path =
     (case robust_file_read fs file_path of
        None \<Rightarrow> None
      | Some content \<Rightarrow>
          if content = [] then None
          else (case re_search match_cutoff content of
                  None \<Rightarrow> None
                | Some cutoff \<Rightarrow>
                    if cutoff \<noteq> target then None
                    else (case re_search match_stamp file_path of
                            None \<Rightarrow> None
                          | Some timestamp_str \<Rightarrow>
                              (case strptime_stamp timestamp_str of
                                 None \<Rightarrow> None
                               | Some timestamp \<Rightarrow> Some (timestamp, file_path)))))"

text \<open>
  The locator.  \<open>files\<close> is the listing \<^verbatim>\<open>glob.glob\<close> returns for the report pattern, in
  whatever order the system gives it.  \<^verbatim>\<open>candidates.sort(reverse=True)\<close> orders the pairs
  from the greatest down (time stamp first, path second), and the path of the first one
  is returned.
\<close>

definition find_matching_report :: "filesystem \<Rightarrow> ustr list \<Rightarrow> ustr \<Rightarrow> ustr option" where
  "find_matching_report fs files target =
     (let candidates = List.map_filter (report_candidate fs target) files
      in if candidates = [] then None
         else Some (snd (hd (rev (sort candidates)))))"

text \<open>A listing for the examples: every file reads as the same report, based on period 24001.\<close>

definition sample_report :: ustr where
  "sample_report =
     [0x5206, 0x6790, 0x57FA, 0x4E8E, 0x6570, 0x636E, 58, 32, 0x622A, 0x81F3] @
     asc '' 24001 '' @ [0x671F]"

definition sample_files :: filesystem where
  "sample_files = \<lparr>file_exists = (\<lambda>p. True), read_text = (\<lambda>p e. Some sample_report)\<rparr>"

section \<open>Properties of the report locator\<close>

lemma sorted_le_last:
  fixes xs :: "('a :: linorder) list"
  shows "sorted xs \<Longrightarrow> x \<in> set xs \<Longrightarrow> x \<le> last xs"
proof (induction xs)
  case Nil
  then show ?case by simp
next
  case (Cons y ys)
  then show ?case by (cases ys) auto
qed

lemma hd_rev_sort_Max:
  fixes cs :: "('a :: linorder) list"
  assumes "cs \<noteq> []"
  shows "hd (rev (sort cs)) = Max (set cs)"
proof -
  have ne: "sort cs \<noteq> []" using assms by (metis length_sort length_0_conv)
  have l: "hd (rev (sort cs)) = last (sort cs)" using ne by (simp add: hd_rev)
  have m: "last (sort cs) \<in> set cs" using ne by (metis last_in_set set_sort)
  have "\<forall>x \<in> set cs. x \<le> last (sort cs)"
  proof
    fix x assume "x \<in> set cs"
    then have "x \<in> set (sort cs)" by simp
    then show "x \<le> last (sort cs)" using sorted_le_last [of "sort cs" x] by simp
  qed
  then have "Max (set cs) = last (sort cs)"
    using m by (intro Max_eqI) auto
  then show ?thesis using l by simp
qed

lemma set_map_filter: "set (List.map_filter f xs) = {y. \<exists>x \<in> set xs. f x = Some y}"
proof (induction xs)
  case Nil
  show ?case by (simp add: List.map_filter_simps)
next
  case (Cons x xs)
  show ?case by (cases "f x") (auto simp: List.map_filter_simps Cons.IH)
qed

lemma candidates_empty:
  "{c. \<exists>f \<in> S. g f = Some c} = {} \<longleftrightarrow> (\<forall>f \<in> S. g f = None)"
proof
  assume e: "{c. \<exists>f \<in> S. g f = Some c} = {}"
  show "\<forall>f \<in> S. g f = None"
  proof
    fix f assume f: "f \<in> S"
    show "g f = None"
    proof (cases "g f")
      case None
      then show ?thesis .
    next
      case (Some c)
      then have "c \<in> {c. \<exists>f \<in> S. g f = Some c}" using f by blast
      then show ?thesis using e by simp
    qed
  qed
next
  assume "\<forall>f \<in> S. g f = None"
  then show "{c. \<exists>f \<in> S. g f = Some c} = {}" by simp
qed

lemma prod_le_lex:
  fixes a c :: "'a :: linorder" and b d :: "'b :: linorder"
  shows "(a, b) \<le> (c, d) \<Longrightarrow> a \<le> c \<and> (a = c \<longrightarrow> b \<le> d)"
  by (auto simp: less_eq_prod_def)

lemma find_matching_report_Max:
  "find_matching_report fs files target =
     (if {c. \<exists>f \<in> set files. report_candidate fs target f = Some c} = {} then None
      else Some (snd (Max {c. \<exists>f \<in> set files. report_candidate fs target f = Some c})))"
proof -
  let ?cs = "List.map_filter (report_candidate fs target) files"
  have s: "set ?cs = {c. \<exists>f \<in> set files. report_candidate fs target f = Some c}"
    by (rule set_map_filter)
  show ?thesis
  proof (cases "?cs = []")
    case True
    then have "set ?cs = {}" by simp
    then show ?thesis using True unfolding s by (simp add: find_matching_report_def)
  next
    case False
    then have "set ?cs \<noteq> {}" by simp
    then show ?thesis
      using False hd_rev_sort_Max [OF False] unfolding s
      by (simp add: find_matching_report_def Let_def)
  qed
qed

lemma report_candidate_Some:
  assumes "report_candidate fs target f = Some (ts, p)"
  shows "p = f \<and> (\<exists>content stamp. robust_file_read fs f = Some content \<and> content \<noteq> []
           \<and> re_search match_cutoff content = Some target
           \<and> re_search match_stamp f = Some stamp \<and> strptime_stamp stamp = Some ts)"
  using assms
  by (auto simp: report_candidate_def split: option.splits if_splits)

text \<open>
  C5. When the locator returns a path, the path is in the listing, the file is readable,
  the first declared cutoff of its text equals the target, its name carries a time stamp
  that \<^verbatim>\<open>strptime\<close> accepts, and no candidate of the listing has a later time stamp
  (among candidates with that same time stamp none has a greater path).  It returns
  nothing exactly when the listing has no candidate.  The result depends only on which
  files are listed, not on the order of the listing.
\<close>

theorem latest_report_selected:
  "(find_matching_report fs files target = Some p \<longrightarrow>
      p \<in> set files
      \<and> (\<exists>content stamp ts.
            robust_file_read fs p = Some content
            \<and> re_search match_cutoff content = Some target
            \<and> re_search match_stamp p = Some stamp
            \<and> strptime_stamp stamp = Some ts
            \<and> (\<forall>q \<in> set files. \<forall>ts'. report_candidate fs target q = Some (ts', q) \<longrightarrow>
                  ts' \<le> ts \<and> (ts' = ts \<longrightarrow> q \<le> p))))
   \<and> (find_matching_report fs files target = None \<longleftrightarrow>
        (\<forall>q \<in> set files. report_candidate fs target q = None))
   \<and> (set files' = set files \<longrightarrow>
        find_matching_report fs files' target = find_matching_report fs files target)"
proof (intro conjI impI)
  let ?C = "{c. \<exists>f \<in> set files. report_candidate fs target f = Some c}"
  assume a: "find_matching_report fs files target = Some p"
  then have ne: "?C \<noteq> {}" and p: "p = snd (Max ?C)"
    by (auto simp: find_matching_report_Max split: if_splits)
  have fin: "finite ?C"
  proof -
    have "?C \<subseteq> the ` (report_candidate fs target ` set files)" by force
    then show ?thesis by (rule finite_subset) simp
  qed
  have "Max ?C \<in> ?C" using fin ne by (rule Max_in)
  then obtain f where f: "f \<in> set files" "report_candidate fs target f = Some (Max ?C)"
    by blast
  obtain ts where m: "Max ?C = (ts, p)" using p by (cases "Max ?C") simp
  from report_candidate_Some [of fs target f ts p] f m
  have pf: "p = f" and ex: "\<exists>content stamp. robust_file_read fs f = Some content \<and> content \<noteq> []
           \<and> re_search match_cutoff content = Some target
           \<and> re_search match_stamp f = Some stamp \<and> strptime_stamp stamp = Some ts"
    by simp_all
  show "p \<in> set files" using pf f by simp
  have le: "\<forall>q \<in> set files. \<forall>ts'. report_candidate fs target q = Some (ts', q) \<longrightarrow>
                  ts' \<le> ts \<and> (ts' = ts \<longrightarrow> q \<le> p)"
  proof (intro ballI allI impI)
    fix q ts' assume q: "q \<in> set files" "report_candidate fs target q = Some (ts', q)"
    then have "(ts', q) \<in> ?C" by blast
    then have "(ts', q) \<le> Max ?C" using fin by simp
    then show "ts' \<le> ts \<and> (ts' = ts \<longrightarrow> q \<le> p)"
      unfolding m by (rule prod_le_lex)
  qed
  show "\<exists>content stamp ts.
            robust_file_read fs p = Some content
            \<and> re_search match_cutoff content = Some target
            \<and> re_search match_stamp p = Some stamp
            \<and> strptime_stamp stamp = Some ts
            \<and> (\<forall>q \<in> set files. \<forall>ts'. report_candidate fs target q = Some (ts', q) \<longrightarrow>
                  ts' \<le> ts \<and> (ts' = ts \<longrightarrow> q \<le> p))"
    using ex le pf by blast
next
  show "find_matching_report fs files target = None \<longleftrightarrow>
        (\<forall>q \<in> set files. report_candidate fs target q = None)"
    unfolding find_matching_report_Max
    using candidates_empty [of "set files" "report_candidate fs target"] by simp
next
  assume "set files' = set files"
  then show "find_matching_report fs files' target = find_matching_report fs files target"
    by (simp add: find_matching_report_Max)
qed


theorem latest_report_selected_witness:
  "find_matching_report sample_files
      [asc ''r_20240101_000000.txt'', asc ''r_x.txt'', asc ''r_20240102_000000.txt'']
      (asc ''24001'') = Some (asc ''r_20240102_000000.txt'')
   \<and> find_matching_report sample_files
      [asc ''r_20240102_000000.txt'', asc ''r_20240101_000000.txt'', asc ''r_x.txt'']
      (asc ''24001'') = Some (asc ''r_20240102_000000.txt'')
   \<and> (\<exists>stamp ts. re_search match_stamp (asc ''r_20240102_000000.txt'') = Some stamp
         \<and> strptime_stamp stamp = Some ts)"
proof -
  have rd: "\<And>p. robust_file_read sample_files p = Some sample_report"
    by (simp add: robust_file_read_def encodings_def sample_files_def)
  have ne: "sample_report \<noteq> []" by (simp add: sample_report_def)
  have c: "re_search match_cutoff sample_report = Some (asc ''24001'')"
    by (simp add: sample_report_def match_cutoff_def lit_def asc_simps isspace_def
        isdecimal_below_1632)
  have s1: "re_search match_stamp (asc ''r_20240101_000000.txt'') = Some (asc ''20240101_000000'')"
    and s2: "re_search match_stamp (asc ''r_20240102_000000.txt'') = Some (asc ''20240102_000000'')"
    and s3: "re_search match_stamp (asc ''r_x.txt'') = None"
    by (simp_all add: match_stamp_def lit_def asc_simps isdecimal_below_1632)
  have t1: "strptime_stamp (asc ''20240101_000000'') = Some (2024, 1, 1, 0, 0, 0)"
    and t2: "strptime_stamp (asc ''20240102_000000'') = Some (2024, 1, 2, 0, 0, 0)"
    by (simp_all add: strptime_stamp_def asc_simps isdecimal_below_1632 month_chars_def
        day_chars_def hour_chars_def minute_chars_def second_chars_def ascii_between_def
        digits_value_def digit_value_def decimal_below_1632 days_in_month_def is_leap_def)
  have rc: "report_candidate sample_files (asc ''24001'') (asc ''r_20240101_000000.txt'') =
              Some ((2024, 1, 1, 0, 0, 0), asc ''r_20240101_000000.txt'')"
    "report_candidate sample_files (asc ''24001'') (asc ''r_20240102_000000.txt'') =
              Some ((2024, 1, 2, 0, 0, 0), asc ''r_20240102_000000.txt'')"
    "report_candidate sample_files (asc ''24001'') (asc ''r_x.txt'') = None"
    by (simp_all add: report_candidate_def rd c s1 s2 s3 t1 t2 ne)
  have m: "List.map_filter (report_candidate sample_files (asc ''24001''))
      [asc ''r_20240101_000000.txt'', asc ''r_x.txt'', asc ''r_20240102_000000.txt''] =
      [((2024, 1, 1, 0, 0, 0), asc ''r_20240101_000000.txt''),
       ((2024, 1, 2, 0, 0, 0), asc ''r_20240102_000000.txt'')]"
    by (simp add: List.map_filter_simps rc)
  have r: "find_matching_report sample_files
      [asc ''r_20240101_000000.txt'', asc ''r_x.txt'', asc ''r_20240102_000000.txt'']
      (asc ''24001'') = Some (asc ''r_20240102_000000.txt'')"
    by (simp add: find_matching_report_def List.map_filter_simps rc)
  have e: "set [asc ''r_20240102_000000.txt'', asc ''r_20240101_000000.txt'', asc ''r_x.txt''] =
    set [asc ''r_20240101_000000.txt'', asc ''r_x.txt'', asc ''r_20240102_000000.txt'']"
    by auto
  show ?thesis
    using r e latest_report_selected [of sample_files
      "[asc ''r_20240101_000000.txt'', asc ''r_x.txt'', asc ''r_20240102_000000.txt'']"
      "asc ''24001''" "asc ''r_20240102_000000.txt''"
      "[asc ''r_20240102_000000.txt'', asc ''r_20240101_000000.txt'', asc ''r_x.txt'']"]
    by metis
qed


section \<open>Ledger manager: \<open>manage_report\<close>\<close>

definition MAX_NORMAL_RECORDS :: nat where
  "MAX_NORMAL_RECORDS = 10"

definition MAX_ERROR_LOGS :: nat where
  "MAX_ERROR_LOGS = 20"

text \<open>The delimiter between sections: a line feed, eighty equals signs, a line feed.\<close>

definition DELIM :: ustr where
  "DELIM = [10] @ replicate 80 61 @ [10]"

text \<open>
  The markers: \<^verbatim>\<open>ERROR\<close> and the word U+9519 U+8BEF (``error'') for an error log, the
  label U+8BC4 U+4F30 U+65F6 U+95F4 with its colon (``evaluation time:'') for a normal
  record; and the header line of the error logs, U+9519 U+8BEF U+65E5 U+5FD7 and a
  colon (``error log:'').
\<close>

definition ERROR_MARK :: ustr where
  "ERROR_MARK = asc ''ERROR''"

definition ERROR_WORD :: ustr where
  "ERROR_WORD = [0x9519, 0x8BEF]"

definition EVAL_TIME_MARK :: ustr where
  "EVAL_TIME_MARK = [0x8BC4, 0x4F30, 0x65F6, 0x95F4, 58]"

definition ERROR_HEADER :: ustr where
  "ERROR_HEADER = [0x9519, 0x8BEF, 0x65E5, 0x5FD7, 58]"

text \<open>\<^verbatim>\<open>sub in text\<close>.\<close>

fun contains :: "ustr \<Rightarrow> ustr \<Rightarrow> bool" where
  "contains sub [] = (sub = [])"
| "contains sub (c # cs) = (prefix sub (c # cs) \<or> contains sub cs)"

subsection \<open>Numbers as text\<close>

text \<open>\<^verbatim>\<open>str(n)\<close> for an integer, and \<^verbatim>\<open>f"{n:,}"\<close>, which groups the digits by three.\<close>

function digits_of :: "nat \<Rightarrow> ustr" where
  "digits_of n = (if n < 10 then [48 + n] else digits_of (n div 10) @ [48 + n mod 10])"
  by pat_completeness auto
termination
  by (relation "measure id") auto

declare digits_of.simps [simp del]

definition str_int :: "int \<Rightarrow> ustr" where
  "str_int i = (if i < 0 then 45 # digits_of (nat (- i)) else digits_of (nat i))"

fun group3 :: "ustr \<Rightarrow> ustr" where
  "group3 (a # b # c # d # rest) = a # b # c # 44 # group3 (d # rest)"
| "group3 ds = ds"

definition str_int_commas :: "int \<Rightarrow> ustr" where
  "str_int_commas i =
     (if i < 0 then 45 # rev (group3 (rev (digits_of (nat (- i)))))
      else rev (group3 (rev (digits_of (nat i)))))"

text \<open>\<^verbatim>\<open>''.join(map(str, numbers))\<close>.\<close>

definition join_numbers :: "int list \<Rightarrow> ustr" where
  "join_numbers ns = concat (map str_int ns)"

subsection \<open>The new sections\<close>

text \<open>
  The dictionary \<^verbatim>\<open>new_entry\<close> as \<^verbatim>\<open>main_process\<close> builds it, with all its keys.
\<close>

record evaluation_entry =
  period :: ustr
  prize_numbers :: "int list"
  recommendation_count :: int
  winning_count :: int
  total_prize :: int
  winning_details :: "win_detail list"

text \<open>The label of the prize tier in a detail line, U+76F4 U+9009 (``direct selection'').\<close>

definition prize_type_label :: "prize_type \<Rightarrow> ustr" where
  "prize_type_label t = (case t of Direct \<Rightarrow> [0x76F4, 0x9009])"

text \<open>
  One line of the block of winners: two spaces, U+7B2C, the index, U+6CE8, a colon, the
  numbers, the tier and the amount with U+5143 (``yuan'').
\<close>

definition detail_line :: "win_detail \<Rightarrow> ustr" where
  "detail_line detail =
     [32, 32, 0x7B2C] @ digits_of (index detail) @ [0x6CE8, 58, 32] @
     join_numbers (numbers detail) @
     asc '' - '' @ prize_type_label (prize_type detail) @ asc '' - '' @
     str_int_commas (prize_amount detail) @ [0x5143]"

text \<open>
  The lines of a new normal record, joined by line feeds: the evaluation time, the
  period, the draw, the number of recommendations, the number of winners, the total
  prize, an empty line, and when there are winners their block and another empty line.
  \<open>now\<close> is the clock reading \<^verbatim>\<open>datetime.now().strftime('%Y-%m-%d %H:%M:%S')\<close>.
\<close>

definition render_entry :: "ustr \<Rightarrow> evaluation_entry \<Rightarrow> ustr" where
  "render_entry now new_entry =
     py_join [10]
       ([EVAL_TIME_MARK @ [32] @ now,
         [0x8BC4, 0x4F30, 0x671F, 0x53F7, 58, 32] @ period new_entry,
         [0x5F00, 0x5956, 0x53F7, 0x7801, 58, 32] @ join_numbers (prize_numbers new_entry),
         [0x63A8, 0x8350, 0x6570, 0x91CF, 58, 32] @ str_int (recommendation_count new_entry) @ [0x6CE8],
         [0x4E2D, 0x5956, 0x6570, 0x91CF, 58, 32] @ str_int (winning_count new_entry) @ [0x6CE8],
         [0x603B, 0x5956, 0x91D1, 58, 32] @ str_int_commas (total_prize new_entry) @ [0x5143],
         []] @
        (if winning_details new_entry \<noteq> []
         then [[0x4E2D, 0x5956, 0x8BE6, 0x60C5, 58]] @ map detail_line (winning_details new_entry) @ [[]]
         else []))"

text \<open>
  A new error log: the error time on one line, the message on the next (labels
  U+9519 U+8BEF U+65F6 U+95F4 and U+9519 U+8BEF U+4FE1 U+606F), each ended by a line feed.
\<close>

definition render_error :: "ustr \<Rightarrow> ustr \<Rightarrow> ustr" where
  "render_error now new_error =
     [0x9519, 0x8BEF, 0x65F6, 0x95F4, 58, 32] @ now @ [10] @
     [0x9519, 0x8BEF, 0x4FE1, 0x606F, 58, 32] @ new_error @ [10]"

subsection \<open>Reading, merging and writing\<close>

text \<open>
  The text of the ledger before the call: empty when the file does not exist or cannot
  be read as UTF-8 (\<^verbatim>\<open>except Exception\<close> leaves \<^verbatim>\<open>existing_content\<close> empty).
\<close>

definition existing_ledger :: "filesystem \<Rightarrow> ustr \<Rightarrow> ustr" where
  "existing_ledger fs report_path =
     (if file_exists fs report_path
      then (case read_text fs report_path UTF8 of Some text \<Rightarrow> text | None \<Rightarrow> [])
      else [])"

text \<open>
  The loop over the sections, with the two lists it appends to: a section that is not
  blank goes to the error logs when it holds an error marker, else to the normal records
  when it holds the evaluation-time marker, else nowhere.
\<close>

fun classify :: "ustr list \<Rightarrow> ustr list \<times> ustr list \<Rightarrow> ustr list \<times> ustr list" where
  "classify [] both = both"
| "classify (section # rest) (normal_records, error_logs) =
     (if py_strip section \<noteq> [] then
        (if contains ERROR_MARK section \<or> contains ERROR_WORD section
         then classify rest (normal_records, error_logs @ [section])
         else if contains EVAL_TIME_MARK section
         then classify rest (normal_records @ [section], error_logs)
         else classify rest (normal_records, error_logs))
      else classify rest (normal_records, error_logs))"

text \<open>
  The two lists after the new sections are put in front and both are cut to their
  caps.  A dictionary \<^verbatim>\<open>new_entry\<close> that is given is not empty, so it is inserted; an
  error message is inserted when it is given and not the empty string.
\<close>

definition merge_records ::
    "ustr \<Rightarrow> ustr \<Rightarrow> evaluation_entry option \<Rightarrow> ustr option \<Rightarrow>
     ustr list \<times> ustr list \<Rightarrow> ustr list \<times> ustr list" where
  "merge_records entry_time error_time new_entry new_error both =
     (case both of (normal_records, error_logs) \<Rightarrow>
        (take MAX_NORMAL_RECORDS
           ((case new_entry of None \<Rightarrow> [] | Some e \<Rightarrow> [render_entry entry_time e]) @
            normal_records),
         take MAX_ERROR_LOGS
           ((case new_error of
               None \<Rightarrow> []
             | Some msg \<Rightarrow> if msg = [] then [] else [render_error error_time msg]) @
            error_logs)))"

text \<open>\<^verbatim>\<open>new_content_parts\<close>.\<close>

definition assemble :: "ustr list \<times> ustr list \<Rightarrow> ustr list" where
  "assemble both =
     (case both of (normal_records, error_logs) \<Rightarrow>
        normal_records @
        (if error_logs \<noteq> []
         then (if normal_records \<noteq> [] then [[]] else []) @ [ERROR_HEADER] @ error_logs
         else []))"

text \<open>
  The lists the call holds when it writes, and the text it writes.  \<open>entry_time\<close> and
  \<open>error_time\<close> are the two readings of the clock.
\<close>

definition retained_records ::
    "filesystem \<Rightarrow> ustr \<Rightarrow> ustr \<Rightarrow> ustr \<Rightarrow> evaluation_entry option \<Rightarrow> ustr option \<Rightarrow>
     ustr list \<times> ustr list" where
  "retained_records fs report_path entry_time error_time new_entry new_error =
     merge_records entry_time error_time new_entry new_error
       (classify (py_split DELIM (existing_ledger fs report_path)) ([], []))"

definition manage_report ::
    "filesystem \<Rightarrow> ustr \<Rightarrow> ustr \<Rightarrow> ustr \<Rightarrow> evaluation_entry option \<Rightarrow> ustr option \<Rightarrow> ustr" where
  "manage_report fs report_path entry_time error_time new_entry new_error =
     py_join DELIM
       (assemble (retained_records fs report_path entry_time error_time new_entry new_error))"

text \<open>For the examples: a file system whose every file holds a given text, a ledger of ten
  normal records, and an evaluation to record.\<close>

definition ledger_files :: "ustr \<Rightarrow> filesystem" where
  "ledger_files text = \<lparr>file_exists = (\<lambda>p. True), read_text = (\<lambda>p e. Some text)\<rparr>"

definition ten_records :: "ustr list" where
  "ten_records = map (\<lambda>d. EVAL_TIME_MARK @ [d]) (asc ''0123456789'')"

definition sample_entry :: evaluation_entry where
  "sample_entry =
     \<lparr>period = asc ''24002'', prize_numbers = [7, 7, 7, 7, 7], recommendation_count = 5,
      winning_count = 1, total_prize = 100000,
      winning_details =
        [\<lparr>index = 2, numbers = [7, 7, 7, 7, 7], prize_type = Direct, prize_amount = 100000\<rparr>]\<rparr>"

section \<open>Properties of the ledger manager\<close>

lemma classify_filter:
  "classify sections (ns, es) =
     (ns @ filter (\<lambda>s. py_strip s \<noteq> [] \<and> \<not> (contains ERROR_MARK s \<or> contains ERROR_WORD s)
                        \<and> contains EVAL_TIME_MARK s) sections,
      es @ filter (\<lambda>s. py_strip s \<noteq> [] \<and> (contains ERROR_MARK s \<or> contains ERROR_WORD s))
             sections)"
  by (induction sections arbitrary: ns es) auto

lemma merge_records_caps:
  "length (fst (merge_records te tr ne nr both)) \<le> 10
   \<and> length (snd (merge_records te tr ne nr both)) \<le> 20"
proof -
  have t: "\<And>n (xs :: ustr list). length (take n xs) \<le> n" by simp
  obtain ns es where b: "both = (ns, es)" by (cases both)
  show ?thesis
    unfolding b merge_records_def MAX_NORMAL_RECORDS_def MAX_ERROR_LOGS_def prod.case fst_conv snd_conv
    using t by blast
qed

lemma take_Cons_full: "length xs = Suc n \<Longrightarrow> take (Suc n) (x # xs) = x # butlast xs"
  by (simp add: butlast_conv_take)

lemma merge_records_full:
  assumes "length normal = MAX_NORMAL_RECORDS"
  shows "fst (merge_records te tr (Some e) nr (normal, errors)) = render_entry te e # butlast normal"
  using assms take_Cons_full [of normal 9 "render_entry te e"]
  by (simp add: merge_records_def MAX_NORMAL_RECORDS_def eval_nat_numeral)

lemma split_from_skip:
  "split_from sep (length xs) cur (xs @ rest) = split_from sep 0 cur rest"
  by (induction xs) auto

lemma split_from_sep:
  assumes "sep \<noteq> []"
  shows "split_from sep 0 cur (sep @ rest) = rev cur # split_from sep 0 [] rest"
proof -
  obtain c cs where sep: "sep = c # cs" using assms by (cases sep) auto
  have "split_from sep 0 cur (sep @ rest) = rev cur # split_from sep (length cs) [] (cs @ rest)"
    unfolding sep by simp
  then show ?thesis by (simp only: split_from_skip)
qed

lemma DELIM_Cons: "DELIM = 10 # 61 # (replicate 79 61 @ [10])"
proof -
  have "(80::nat) = Suc 79" by simp
  then show ?thesis unfolding DELIM_def by (simp only: replicate_Suc append_Cons append_Nil)
qed

lemma split_from_no_equals:
  assumes "61 \<notin> set x" and "rest = [] \<or> hd rest = 10"
  shows "split_from DELIM 0 cur (x @ rest) = split_from DELIM 0 (rev x @ cur) rest"
  using assms(1)
proof (induction x arbitrary: cur)
  case Nil
  show ?case by simp
next
  case (Cons c cs)
  have "\<not> prefix DELIM (c # cs @ rest)"
  proof (cases cs)
    case Nil
    then show ?thesis using assms(2) by (cases rest) (auto simp: DELIM_Cons)
  next
    case (Cons d ds)
    then show ?thesis using Cons.prems by (auto simp: DELIM_Cons)
  qed
  then show ?case using Cons by simp
qed

lemma split_join_no_equals:
  assumes "\<forall>x \<in> set xs. 61 \<notin> set x" and "xs \<noteq> []"
  shows "py_split DELIM (py_join DELIM xs) = xs"
proof -
  have d: "DELIM \<noteq> []" by (simp add: DELIM_def)
  have h: "hd (DELIM @ r) = 10" for r by (simp add: DELIM_def)
  have "split_from DELIM 0 [] (py_join DELIM xs) = xs"
    using assms
  proof (induction xs)
    case Nil
    then show ?case by simp
  next
    case (Cons p ps)
    have p: "61 \<notin> set p" using Cons.prems by simp
    show ?case
    proof (cases ps)
      case Nil
      then show ?thesis using split_from_no_equals [OF p, of "[]" "[]"] by simp
    next
      case (Cons q qs)
      have "split_from DELIM 0 [] (p @ DELIM @ py_join DELIM ps) =
            split_from DELIM 0 (rev p) (DELIM @ py_join DELIM ps)"
        using split_from_no_equals [OF p, of "DELIM @ py_join DELIM ps" "[]"] h by simp
      also have "\<dots> = p # split_from DELIM 0 [] (py_join DELIM ps)"
        using split_from_sep [OF d] by simp
      also have "\<dots> = p # ps"
        using Cons.IH Cons.prems Cons by simp
      finally show ?thesis using Cons by simp
    qed
  qed
  then show ?thesis by (simp add: py_split_def)
qed

text \<open>
  C2. Whatever the ledger file holds before a call, and so after any sequence of earlier
  writes, the list of normal records the call writes has at most 10 entries and the list
  of error logs at most 20.  When the ledger holds exactly 10 normal records and a new
  evaluation is recorded, the normal records written are the new one followed by the
  first nine of the old ones, in their order: ten records, the newest first, the oldest
  gone; the text written is these records joined by the delimiter, followed by the error
  part if there is one.
\<close>

theorem ledger_retention:
  "length (fst (retained_records fs report_path te tr new_entry new_error)) \<le> 10
   \<and> length (snd (retained_records fs report_path te tr new_entry new_error)) \<le> 20
   \<and> (classify (py_split DELIM (existing_ledger fs report_path)) ([], []) = (normal, errors)
        \<and> length normal = MAX_NORMAL_RECORDS \<longrightarrow>
        fst (retained_records fs report_path te tr (Some e) new_error) =
          render_entry te e # butlast normal
        \<and> length (render_entry te e # butlast normal) = MAX_NORMAL_RECORDS
        \<and> (\<exists>rest. manage_report fs report_path te tr (Some e) new_error =
                     py_join DELIM ((render_entry te e # butlast normal) @ rest)
                   \<and> (rest = [] \<or>
                       rest = [[], ERROR_HEADER] @
                              snd (retained_records fs report_path te tr (Some e) new_error))))"
proof (intro conjI impI)
  show "length (fst (retained_records fs report_path te tr new_entry new_error)) \<le> 10"
    and "length (snd (retained_records fs report_path te tr new_entry new_error)) \<le> 20"
    using merge_records_caps by (simp_all add: retained_records_def)
next
  assume a: "classify (py_split DELIM (existing_ledger fs report_path)) ([], []) = (normal, errors)
        \<and> length normal = MAX_NORMAL_RECORDS"
  then have f: "fst (retained_records fs report_path te tr (Some e) new_error) =
          render_entry te e # butlast normal"
    by (simp add: retained_records_def merge_records_full)
  then show "fst (retained_records fs report_path te tr (Some e) new_error) =
          render_entry te e # butlast normal" .
  show "length (render_entry te e # butlast normal) = MAX_NORMAL_RECORDS"
    using a by (simp add: MAX_NORMAL_RECORDS_def)
  obtain ns es where r: "retained_records fs report_path te tr (Some e) new_error = (ns, es)"
    by (cases "retained_records fs report_path te tr (Some e) new_error")
  have ns: "ns = render_entry te e # butlast normal" using f r by simp
  show "\<exists>rest. manage_report fs report_path te tr (Some e) new_error =
                     py_join DELIM ((render_entry te e # butlast normal) @ rest)
                   \<and> (rest = [] \<or>
                       rest = [[], ERROR_HEADER] @
                              snd (retained_records fs report_path te tr (Some e) new_error))"
  proof (cases "es = []")
    case True
    then have "manage_report fs report_path te tr (Some e) new_error =
                 py_join DELIM ((render_entry te e # butlast normal) @ [])"
      using r ns by (simp add: manage_report_def assemble_def)
    then show ?thesis by blast
  next
    case False
    then have "manage_report fs report_path te tr (Some e) new_error =
                 py_join DELIM ((render_entry te e # butlast normal) @ ([[], ERROR_HEADER] @ es))"
      using r ns by (simp add: manage_report_def assemble_def)
    then show ?thesis using r by auto
  qed
qed

lemma existing_ledger_files: "existing_ledger (ledger_files text) p = text"
  by (simp add: existing_ledger_def ledger_files_def)

lemma classify_ten_records:
  "classify (py_split DELIM (py_join DELIM ten_records)) ([], []) = (ten_records, [])"
proof -
  have "py_split DELIM (py_join DELIM ten_records) = ten_records"
    by (rule split_join_no_equals) (simp_all add: ten_records_def asc_simps EVAL_TIME_MARK_def)
  moreover have "classify ten_records ([], []) = (ten_records, [])"
    by (simp add: ten_records_def asc_simps EVAL_TIME_MARK_def ERROR_MARK_def ERROR_WORD_def
        py_strip_def isspace_def)
  ultimately show ?thesis by simp
qed

theorem ledger_retention_witness:
  "classify (py_split DELIM (existing_ledger (ledger_files (py_join DELIM ten_records)) (asc ''l.txt'')))
      ([], []) = (ten_records, [])
   \<and> length ten_records = MAX_NORMAL_RECORDS
   \<and> fst (retained_records (ledger_files (py_join DELIM ten_records)) (asc ''l.txt'')
            (asc ''2024-01-02 03:04:05'') [] (Some sample_entry) None) =
       render_entry (asc ''2024-01-02 03:04:05'') sample_entry #
       map (\<lambda>d. EVAL_TIME_MARK @ [d]) (asc ''012345678'')
   \<and> length (snd (retained_records (ledger_files (py_join DELIM ten_records)) (asc ''l.txt'')
            (asc ''2024-01-02 03:04:05'') [] (Some sample_entry) None)) \<le> 20"
proof -
  have c: "classify (py_split DELIM (existing_ledger (ledger_files (py_join DELIM ten_records))
              (asc ''l.txt''))) ([], []) = (ten_records, [])"
    by (simp only: existing_ledger_files classify_ten_records)
  have l: "length ten_records = MAX_NORMAL_RECORDS"
    by (simp add: ten_records_def MAX_NORMAL_RECORDS_def asc_simps)
  have b: "butlast ten_records = map (\<lambda>d. EVAL_TIME_MARK @ [d]) (asc ''012345678'')"
    by (simp add: ten_records_def asc_simps)
  show ?thesis
    using c l b ledger_retention [of "ledger_files (py_join DELIM ten_records)" "asc ''l.txt''"
      "asc ''2024-01-02 03:04:05''" "[]" "Some sample_entry" None ten_records "[]" sample_entry]
    by simp
qed

text \<open>
  C8, amended. The sections of the old text that are not blank are classified: those
  with an error marker are error logs, those without one but with the evaluation-time
  marker are normal records, the others are dropped.  The new sections go in front,
  both lists are cut to their caps, and the text written is, joined by the delimiter:
  the normal records, then, only if there is an error log, an empty section (only if
  there is a normal record), the header line and the error logs.
\<close>

theorem ledger_classified_and_reassembled:
  "retained_records fs report_path te tr new_entry new_error =
     (take MAX_NORMAL_RECORDS
        ((case new_entry of None \<Rightarrow> [] | Some e \<Rightarrow> [render_entry te e]) @
         filter (\<lambda>s. py_strip s \<noteq> [] \<and> \<not> (contains ERROR_MARK s \<or> contains ERROR_WORD s)
                     \<and> contains EVAL_TIME_MARK s)
           (py_split DELIM (existing_ledger fs report_path))),
      take MAX_ERROR_LOGS
        ((case new_error of None \<Rightarrow> []
          | Some msg \<Rightarrow> if msg = [] then [] else [render_error tr msg]) @
         filter (\<lambda>s. py_strip s \<noteq> [] \<and> (contains ERROR_MARK s \<or> contains ERROR_WORD s))
           (py_split DELIM (existing_ledger fs report_path))))
   \<and> manage_report fs report_path te tr new_entry new_error =
       py_join DELIM
         (fst (retained_records fs report_path te tr new_entry new_error) @
          (if snd (retained_records fs report_path te tr new_entry new_error) = [] then []
           else (if fst (retained_records fs report_path te tr new_entry new_error) = [] then []
                 else [[]]) @
                [ERROR_HEADER] @
                snd (retained_records fs report_path te tr new_entry new_error)))"
proof (intro conjI)
  show "retained_records fs report_path te tr new_entry new_error =
     (take MAX_NORMAL_RECORDS
        ((case new_entry of None \<Rightarrow> [] | Some e \<Rightarrow> [render_entry te e]) @
         filter (\<lambda>s. py_strip s \<noteq> [] \<and> \<not> (contains ERROR_MARK s \<or> contains ERROR_WORD s)
                     \<and> contains EVAL_TIME_MARK s)
           (py_split DELIM (existing_ledger fs report_path))),
      take MAX_ERROR_LOGS
        ((case new_error of None \<Rightarrow> []
          | Some msg \<Rightarrow> if msg = [] then [] else [render_error tr msg]) @
         filter (\<lambda>s. py_strip s \<noteq> [] \<and> (contains ERROR_MARK s \<or> contains ERROR_WORD s))
           (py_split DELIM (existing_ledger fs report_path))))"
    by (simp add: retained_records_def classify_filter merge_records_def)
next
  obtain ns es where r: "retained_records fs report_path te tr new_entry new_error = (ns, es)"
    by (cases "retained_records fs report_path te tr new_entry new_error")
  show "manage_report fs report_path te tr new_entry new_error =
       py_join DELIM
         (fst (retained_records fs report_path te tr new_entry new_error) @
          (if snd (retained_records fs report_path te tr new_entry new_error) = [] then []
           else (if fst (retained_records fs report_path te tr new_entry new_error) = [] then []
                 else [[]]) @
                [ERROR_HEADER] @
                snd (retained_records fs report_path te tr new_entry new_error)))"
    unfolding manage_report_def r by (simp add: assemble_def)
qed


lemma sample_error_write:
  "retained_records (ledger_files (EVAL_TIME_MARK @ asc '' t'')) (asc ''l.txt'') [] (asc ''T'')
      None (Some (asc ''boom'')) =
     ([EVAL_TIME_MARK @ asc '' t''], [render_error (asc ''T'') (asc ''boom'')])"
proof -
  have "py_split DELIM (py_join DELIM [EVAL_TIME_MARK @ asc '' t'']) = [EVAL_TIME_MARK @ asc '' t'']"
    by (rule split_join_no_equals) (simp_all add: asc_simps EVAL_TIME_MARK_def)
  then have s: "py_split DELIM (EVAL_TIME_MARK @ asc '' t'') = [EVAL_TIME_MARK @ asc '' t'']"
    by simp
  have c: "classify [EVAL_TIME_MARK @ asc '' t''] ([], []) = ([EVAL_TIME_MARK @ asc '' t''], [])"
    by (simp add: asc_simps EVAL_TIME_MARK_def ERROR_MARK_def ERROR_WORD_def py_strip_def
        isspace_def)
  have b: "asc ''boom'' \<noteq> []" by (simp add: asc_simps)
  show ?thesis
    unfolding retained_records_def existing_ledger_files s c
    using b by (simp add: merge_records_def MAX_NORMAL_RECORDS_def MAX_ERROR_LOGS_def)
qed

text \<open>
  C8, as stated, fails where normal records and error logs are both written: the
  function puts an empty section between the last normal record and the header, so the
  text is not the normal records, the header and the error logs joined by the delimiter.
\<close>

theorem ledger_blank_section_counterexample:
  "manage_report (ledger_files (EVAL_TIME_MARK @ asc '' t'')) (asc ''l.txt'') [] (asc ''T'')
      None (Some (asc ''boom'')) =
     py_join DELIM [EVAL_TIME_MARK @ asc '' t'', [], ERROR_HEADER,
                    render_error (asc ''T'') (asc ''boom'')]
   \<and> py_join DELIM [EVAL_TIME_MARK @ asc '' t'', [], ERROR_HEADER,
                    render_error (asc ''T'') (asc ''boom'')] \<noteq>
     py_join DELIM ([EVAL_TIME_MARK @ asc '' t''] @ [ERROR_HEADER] @
                    [render_error (asc ''T'') (asc ''boom'')])"
proof -
  have "length (py_join DELIM [EVAL_TIME_MARK @ asc '' t'', [], ERROR_HEADER,
                    render_error (asc ''T'') (asc ''boom'')]) \<noteq>
        length (py_join DELIM ([EVAL_TIME_MARK @ asc '' t''] @ [ERROR_HEADER] @
                    [render_error (asc ''T'') (asc ''boom'')]))"
    by (simp add: DELIM_def)
  then have "py_join DELIM [EVAL_TIME_MARK @ asc '' t'', [], ERROR_HEADER,
                    render_error (asc ''T'') (asc ''boom'')] \<noteq>
     py_join DELIM ([EVAL_TIME_MARK @ asc '' t''] @ [ERROR_HEADER] @
                    [render_error (asc ''T'') (asc ''boom'')])"
    by metis
  moreover have "manage_report (ledger_files (EVAL_TIME_MARK @ asc '' t'')) (asc ''l.txt'') []
      (asc ''T'') None (Some (asc ''boom'')) =
     py_join DELIM [EVAL_TIME_MARK @ asc '' t'', [], ERROR_HEADER,
                    render_error (asc ''T'') (asc ''boom'')]"
    unfolding manage_report_def sample_error_write by (simp add: assemble_def)
  ultimately show ?thesis by blast
qed

theorem ledger_classified_and_reassembled_witness:
  "manage_report (ledger_files (EVAL_TIME_MARK @ asc '' t'')) (asc ''l.txt'') [] (asc ''T'')
      None (Some (asc ''boom'')) =
     py_join DELIM [EVAL_TIME_MARK @ asc '' t'', [], ERROR_HEADER,
                    render_error (asc ''T'') (asc ''boom'')]"
  using ledger_classified_and_reassembled [of "ledger_files (EVAL_TIME_MARK @ asc '' t'')"
      "asc ''l.txt''" "[]" "asc ''T''" None "Some (asc ''boom'')"]
  unfolding sample_error_write by simp



end
